theory Spec2Isabelle
  imports Complex_Main
begin

section \<open>Data model of the race manager\<close>

text \<open>
  The embedding follows \<open>competition/race_manager.py\<close>, \<open>competition/server.py\<close> and the
  tail of \<open>judge_race\<close> in \<open>competition/llm.py\<close>.

  Timestamps are Python floats produced by \<open>time.time()\<close>. They are modelled as reals that
  stand for the float values; \<open>-\<close> stands for float subtraction. The only facts about
  them that the development uses are comparisons with \<open>0\<close>, which decide Python's
  truthiness of a float (\<open>x or time.time()\<close>, \<open>if x:\<close>). Each call of \<open>time.time()\<close>
  is an explicit argument of the modelled operation.
\<close>

datatype json =
    JNull
  | JBool bool
  | JInt int
  | JFloat real
  | JStr string
  | JArr "json list"
  | JObj "(string \<times> json) list"

text \<open>
  The exceptions raised by this code: \<open>KeyError\<close> and \<open>RuntimeError\<close> with their message,
  the two \<open>RuntimeError\<close>s of \<open>judge_race\<close> with the data their message is built from,
  and an exception of the builtin \<open>float\<close> that \<open>judge_race\<close> does not catch.
\<close>

datatype py_exc = TypeError | ValueError | OverflowError

datatype error =
    KeyError string
  | RuntimeError string
  | Judge_missing_keys "string list"
  | Judge_not_numeric string json
  | Uncaught py_exc

record RaceTask =
  title :: string
  summary :: string
  human_instructions :: string
  agent_instructions :: string
  task_type :: string
  success_criteria :: string
  expected_output_description :: string
  evaluation_guidelines :: "string list"

text \<open>
  \<open>ParticipantState.status\<close> is a free string (a \<open>status\<close> event copies any non-empty
  string into it); it is named \<open>pstatus\<close> here because \<open>RaceState\<close> has a field
  \<open>status\<close> of its own.
\<close>

record ParticipantState =
  pstatus :: string
  started_at :: "real option"
  completed_at :: "real option"
  duration_seconds :: "real option"
  result :: "string option"
  live_url :: "string option"

text \<open>
  The verdict dictionary has the four keys \<open>winner\<close>, \<open>reasoning\<close>, \<open>agent_score\<close>,
  \<open>human_score\<close>; \<open>reasoning\<close> is whatever JSON value the judge sent.
\<close>

record Verdict =
  winner :: string
  reasoning :: json
  agent_score :: real
  human_score :: real

text \<open>
  The race-level status only ever receives the five literals \<open>"ready"\<close>, \<open>"running"\<close>,
  \<open>"awaiting_human"\<close>, \<open>"judging"\<close>, \<open>"completed"\<close>.
\<close>

datatype race_status = Ready | Running | Awaiting_human | Judging | Completed

record RaceState =
  race_id :: string
  task :: RaceTask
  created_at :: real
  status :: race_status
  agent_run_id :: "string option"
  agent :: ParticipantState
  human :: ParticipantState
  human_submission :: "string option"
  verdict :: "Verdict option"
  finalizing :: bool

text \<open>
  A judgement task is one call \<open>asyncio.create_task(_run_judgement())\<close>: the closure holds
  its race. The task is pending until the code after \<open>await llm.judge_race(...)\<close> has run.
  It then has stored a verdict (the judge's, or the synthetic one when the judge raised an
  \<open>Exception\<close>), or it was aborted: an exception that is not an \<open>Exception\<close>
  (\<open>asyncio.CancelledError\<close>, \<open>GeneratorExit\<close>) passes \<open>except Exception\<close>, so that only
  the \<open>finally\<close> clause runs and no verdict is stored.
\<close>

datatype task_state = Task_pending | Task_stored | Task_aborted

record judge_task =
  task_race :: string
  task_state :: task_state

text \<open>How the \<open>await llm.judge_race(...)\<close> of a judgement task ends.\<close>

datatype judge_outcome =
    Returned Verdict
  | Raised string
  | Cancelled

text \<open>
  The module state: the two global dictionaries and the judgement tasks handed to the event
  loop, in creation order.
\<close>

record sys =
  RACE_STATES :: "string \<rightharpoonup> RaceState"
  RUN_TO_RACE :: "string \<rightharpoonup> string"
  judge_tasks :: "judge_task list"

type_synonym event = "string \<rightharpoonup> string"

section \<open>Operations of \<open>race_manager.py\<close>\<close>

definition pending_participant :: ParticipantState where
  "pending_participant =
     \<lparr>pstatus = ''pending'', started_at = None, completed_at = None,
      duration_seconds = None, result = None, live_url = None\<rparr>"

definition new_race :: "string \<Rightarrow> RaceTask \<Rightarrow> real \<Rightarrow> RaceState" where
  "new_race rid t now =
     \<lparr>race_id = rid, task = t, created_at = now, status = Ready, agent_run_id = None,
      agent = pending_participant, human = pending_participant,
      human_submission = None, verdict = None, finalizing = False\<rparr>"

definition init_sys :: sys where
  "init_sys = \<lparr>RACE_STATES = Map.empty, RUN_TO_RACE = Map.empty, judge_tasks = []\<rparr>"

text \<open>\<open>x or time.time()\<close> on an optional float: \<open>None\<close> and \<open>0.0\<close> are falsy.\<close>

definition or_time :: "real option \<Rightarrow> real \<Rightarrow> real" where
  "or_time x now = (case x of None \<Rightarrow> now | Some t \<Rightarrow> if t = 0 then now else t)"

text \<open>\<open>submission or ""\<close>.\<close>

definition or_empty :: "string option \<Rightarrow> string" where
  "or_empty x = (case x of None \<Rightarrow> [] | Some t \<Rightarrow> t)"

text \<open>
  \<open>create_race\<close>: the task payload comes from the task generator and the identifier from
  \<open>uuid.uuid4().hex\<close>; both are arguments.
\<close>

definition create_race :: "string \<Rightarrow> RaceTask \<Rightarrow> real \<Rightarrow> sys \<Rightarrow> sys" where
  "create_race rid t now s = s\<lparr>RACE_STATES := (RACE_STATES s)(rid \<mapsto> new_race rid t now)\<rparr>"

definition get_race :: "sys \<Rightarrow> string \<Rightarrow> error + RaceState" where
  "get_race s rid =
     (case RACE_STATES s rid of
        None \<Rightarrow> Inl (KeyError (''Unknown race id '' @ rid))
      | Some race \<Rightarrow> Inr race)"

text \<open>
  Operations that can raise return the error (or the value) together with the module
  state as it is when they leave.
\<close>

definition register_effect :: "string \<Rightarrow> real \<Rightarrow> RaceState \<Rightarrow> RaceState" where
  "register_effect run now race =
     race\<lparr>agent_run_id := Some run, status := Running,
          agent := (agent race)\<lparr>pstatus := ''starting'',
             started_at := Some (or_time (started_at (agent race)) now)\<rparr>\<rparr>"

definition register_agent_run ::
  "string \<Rightarrow> string \<Rightarrow> real \<Rightarrow> sys \<Rightarrow> (error + RaceState) \<times> sys" where
  "register_agent_run rid run now s =
     (case get_race s rid of
        Inl e \<Rightarrow> (Inl e, s)
      | Inr race \<Rightarrow>
          if agent_run_id race \<noteq> None
          then (Inl (RuntimeError (''Agent run already registered for race '' @ rid)), s)
          else
            (Inr (register_effect run now race),
             s\<lparr>RACE_STATES := (RACE_STATES s)(rid \<mapsto> register_effect run now race),
               RUN_TO_RACE := (RUN_TO_RACE s)(run \<mapsto> rid)\<rparr>))"

text \<open>
  The branches of the \<open>if\<close>/\<open>elif\<close> chain of \<open>handle_run_event\<close>, each on the race the
  event routes to, in the order of the source.
\<close>

definition on_status :: "event \<Rightarrow> real \<Rightarrow> RaceState \<Rightarrow> RaceState" where
  "on_status ev now race =
     (case ev ''status'' of
        None \<Rightarrow> race
      | Some st \<Rightarrow>
          if st = [] then race
          else race\<lparr>agent := (agent race)\<lparr>pstatus := st,
                   started_at := (if st = ''running'' \<and> started_at (agent race) = None
                                  then Some now else started_at (agent race))\<rparr>\<rparr>)"

definition on_live_url :: "event \<Rightarrow> RaceState \<Rightarrow> RaceState" where
  "on_live_url ev race =
     (case ev ''url'' of
        None \<Rightarrow> race
      | Some url \<Rightarrow>
          if url = [] then race else race\<lparr>agent := (agent race)\<lparr>live_url := Some url\<rparr>\<rparr>)"

definition on_result :: "event \<Rightarrow> real \<Rightarrow> RaceState \<Rightarrow> RaceState" where
  "on_result ev now race =
     (case ev ''result'' of
        None \<Rightarrow> race
      | Some res \<Rightarrow>
          let c = or_time (completed_at (agent race)) now;
              a1 = (agent race)\<lparr>result := Some res, completed_at := Some c\<rparr>;
              a2 = (case started_at a1 of
                      None \<Rightarrow> a1
                    | Some st \<Rightarrow>
                        if st \<noteq> 0 then a1\<lparr>duration_seconds := Some (c - st)\<rparr> else a1)
          in race\<lparr>agent := a2\<rparr>)"

definition on_error :: "RaceState \<Rightarrow> RaceState" where
  "on_error race = race\<lparr>agent := (agent race)\<lparr>pstatus := ''error''\<rparr>\<rparr>"

definition on_complete :: "real \<Rightarrow> RaceState \<Rightarrow> RaceState" where
  "on_complete now race =
     (let c = or_time (completed_at (agent race)) now;
          a1 = (agent race)\<lparr>pstatus := ''completed'', completed_at := Some c\<rparr>;
          a2 = (case started_at a1 of
                  None \<Rightarrow> a1
                | Some st \<Rightarrow>
                    if st \<noteq> 0 \<and> duration_seconds a1 = None
                    then a1\<lparr>duration_seconds := Some (c - st)\<rparr> else a1);
          race1 = race\<lparr>agent := a2\<rparr>
      in if status race1 \<noteq> Judging \<and> status race1 \<noteq> Completed
         then race1\<lparr>status := (if pstatus (human race1) \<noteq> ''completed''
                                  then Awaiting_human else status race1)\<rparr>
         else race1)"

text \<open>
  The chain itself. The boolean says whether \<open>RUN_TO_RACE.pop(run_id, None)\<close> runs (only
  in the \<open>complete\<close> branch). An event of any other type (\<open>log\<close>, or none) changes nothing.
\<close>

definition apply_event :: "event \<Rightarrow> real \<Rightarrow> RaceState \<Rightarrow> RaceState \<times> bool" where
  "apply_event ev now race =
     (let event_type = ev ''type'' in
      if event_type = Some ''status'' then (on_status ev now race, False)
      else if event_type = Some ''live_url'' then (on_live_url ev race, False)
      else if event_type = Some ''result'' then (on_result ev now race, False)
      else if event_type = Some ''error'' then (on_error race, False)
      else if event_type = Some ''complete'' then (on_complete now race, True)
      else (race, False))"

text \<open>
  \<open>_maybe_finalize\<close> up to and including \<open>asyncio.create_task\<close>; the boolean says whether
  a judgement task was created. It has no suspension point.
\<close>

definition agent_ready :: "RaceState \<Rightarrow> bool" where
  "agent_ready race \<longleftrightarrow> result (agent race) \<noteq> None \<or> pstatus (agent race) = ''error''"

definition human_ready :: "RaceState \<Rightarrow> bool" where
  "human_ready race \<longleftrightarrow>
     (if task_type (task race) = ''text_entry'' then human_submission race \<noteq> None
      else pstatus (human race) = ''completed'')"

definition maybe_finalize :: "RaceState \<Rightarrow> RaceState \<times> bool" where
  "maybe_finalize race =
     (if verdict race \<noteq> None \<or> finalizing race then (race, False)
      else if \<not> (agent_ready race \<and> human_ready race) then (race, False)
      else (race\<lparr>finalizing := True, status := Judging\<rparr>, True))"

text \<open>
  The body of \<open>_run_judgement\<close> from the point where \<open>llm.judge_race\<close> has returned a
  verdict, or has raised an \<open>Exception\<close> whose \<open>str\<close> is the given text, or where the task
  is cancelled at its \<open>await\<close>. The judge is an external collaborator: how its call ends
  is an argument. \<open>finally\<close> runs on all three exits.
\<close>

definition run_judgement :: "judge_outcome \<Rightarrow> RaceState \<Rightarrow> RaceState" where
  "run_judgement outcome race =
     (case outcome of
        Returned v \<Rightarrow> race\<lparr>verdict := Some v, status := Completed, finalizing := False\<rparr>
      | Raised exc \<Rightarrow>
          race\<lparr>verdict := Some \<lparr>winner = ''tie'',
                                reasoning = JStr (''Judging failed: '' @ exc),
                                agent_score = 0, human_score = 0\<rparr>,
               status := Completed, finalizing := False\<rparr>
      | Cancelled \<Rightarrow> race\<lparr>finalizing := False\<rparr>)"

definition spawn :: "string \<Rightarrow> bool \<Rightarrow> judge_task list \<Rightarrow> judge_task list" where
  "spawn rid created ts =
     (if created then ts @ [\<lparr>task_race = rid, task_state = Task_pending\<rparr>] else ts)"

definition handle_run_event ::
  "string \<Rightarrow> event \<Rightarrow> real \<Rightarrow> sys \<Rightarrow> (error + unit) \<times> sys" where
  "handle_run_event run ev now s =
     (case RUN_TO_RACE s run of
        None \<Rightarrow> (Inr (), s)
      | Some rid \<Rightarrow>
          if rid = [] then (Inr (), s)
          else
            (case get_race s rid of
               Inl e \<Rightarrow> (Inl e, s)
             | Inr race \<Rightarrow>
                 let (race1, detach) = apply_event ev now race;
                     (race2, created) = maybe_finalize race1
                 in (Inr (),
                     s\<lparr>RACE_STATES := (RACE_STATES s)(rid \<mapsto> race2),
                       RUN_TO_RACE := (if detach then (RUN_TO_RACE s)(run := None)
                                       else RUN_TO_RACE s),
                       judge_tasks := spawn rid created (judge_tasks s)\<rparr>)))"

text \<open>
  \<open>record_human_submission\<close> reads the clock up to twice: \<open>t_start\<close> for the start
  timestamp, \<open>t_done\<close> for the completion timestamp.
\<close>

definition submit_effect ::
  "string option \<Rightarrow> real \<Rightarrow> real \<Rightarrow> RaceState \<Rightarrow> RaceState" where
  "submit_effect submission t_start t_done race =
     (let h = human race;
          h1 = (if pstatus h = ''pending''
                then h\<lparr>pstatus := ''running'',
                       started_at := Some (or_time (started_at h) t_start)\<rparr>
                else h);
          c = or_time (completed_at h1) t_done;
          h2 = h1\<lparr>pstatus := ''completed'', completed_at := Some c\<rparr>;
          h3 = (case started_at h2 of
                  None \<Rightarrow> h2
                | Some st \<Rightarrow>
                    if st \<noteq> 0 \<and> duration_seconds h2 = None
                    then h2\<lparr>duration_seconds := Some (c - st)\<rparr> else h2)
      in if task_type (task race) = ''text_entry''
         then race\<lparr>human := h3\<lparr>result := Some (or_empty submission)\<rparr>,
                   human_submission := Some (or_empty submission)\<rparr>
         else race\<lparr>human := h3, human_submission := Some (or_empty submission)\<rparr>)"

definition record_human_submission ::
  "string \<Rightarrow> string option \<Rightarrow> real \<Rightarrow> real \<Rightarrow> sys \<Rightarrow> (error + RaceState) \<times> sys" where
  "record_human_submission rid submission t_start t_done s =
     (case get_race s rid of
        Inl e \<Rightarrow> (Inl e, s)
      | Inr race \<Rightarrow>
          let (race2, created) = maybe_finalize (submit_effect submission t_start t_done race)
          in (Inr race2,
              s\<lparr>RACE_STATES := (RACE_STATES s)(rid \<mapsto> race2),
                judge_tasks := spawn rid created (judge_tasks s)\<rparr>))"

definition started_effect :: "real \<Rightarrow> RaceState \<Rightarrow> RaceState" where
  "started_effect now race =
     (if pstatus (human race) = ''completed'' then race
      else if pstatus (human race) = ''pending''
      then
        let race1 = race\<lparr>human := (human race)\<lparr>pstatus := ''running'',
                       started_at := Some (or_time (started_at (human race)) now)\<rparr>\<rparr>
        in (if status race1 = Ready then race1\<lparr>status := Running\<rparr> else race1)
      else race)"

definition mark_human_started ::
  "string \<Rightarrow> real \<Rightarrow> sys \<Rightarrow> (error + RaceState) \<times> sys" where
  "mark_human_started rid now s =
     (case get_race s rid of
        Inl e \<Rightarrow> (Inl e, s)
      | Inr race \<Rightarrow>
          let race' = started_effect now race
          in (Inr race', s\<lparr>RACE_STATES := (RACE_STATES s)(rid \<mapsto> race')\<rparr>))"

text \<open>
  A pending judgement task resumes after its \<open>await\<close> and runs to its end without a
  further suspension point: it mutates the race its closure holds and is no longer pending.
  The races are never removed from \<open>RACE_STATES\<close> (the server never calls \<open>clear_race\<close>), so
  the closure's race is the registered one.
\<close>

definition finished_state :: "judge_outcome \<Rightarrow> task_state" where
  "finished_state outcome = (case outcome of Cancelled \<Rightarrow> Task_aborted | _ \<Rightarrow> Task_stored)"

definition judge_task_finishes :: "nat \<Rightarrow> judge_outcome \<Rightarrow> sys \<Rightarrow> sys" where
  "judge_task_finishes i outcome s =
     (if i < length (judge_tasks s) \<and> task_state (judge_tasks s ! i) = Task_pending
      then
        let rid = task_race (judge_tasks s ! i);
            ts = (judge_tasks s)[i := \<lparr>task_race = rid, task_state = finished_state outcome\<rparr>]
        in (case RACE_STATES s rid of
              None \<Rightarrow> s\<lparr>judge_tasks := ts\<rparr>
            | Some race \<Rightarrow>
                s\<lparr>RACE_STATES := (RACE_STATES s)(rid \<mapsto> run_judgement outcome race),
                  judge_tasks := ts\<rparr>)
      else s)"

section \<open>Schedules\<close>

text \<open>
  Every operation above runs without a suspension point (in \<open>handle_run_event\<close> and
  \<open>record_human_submission\<close> the only \<open>await\<close> is on \<open>_maybe_finalize\<close>, which never
  suspends), so under the single-threaded cooperative scheduler an execution of the module
  is a sequence of whole operations, interleaved with the completions of judgement tasks.
  A step carries the values the environment supplies: identifiers, clock readings, the
  event, the judge's outcome.
\<close>

datatype step =
    Create_race string RaceTask real
  | Register_agent_run string string real
  | Run_event string event real
  | Human_submission string "string option" real real
  | Human_started string real
  | Judge_done nat judge_outcome

fun exec :: "step \<Rightarrow> sys \<Rightarrow> sys" where
  "exec (Create_race rid t now) s = create_race rid t now s"
| "exec (Register_agent_run rid run now) s = snd (register_agent_run rid run now s)"
| "exec (Run_event run ev now) s = snd (handle_run_event run ev now s)"
| "exec (Human_submission rid sub t_start t_done) s =
     snd (record_human_submission rid sub t_start t_done s)"
| "exec (Human_started rid now) s = snd (mark_human_started rid now s)"
| "exec (Judge_done i outcome) s = judge_task_finishes i outcome s"

text \<open>
  What the environment guarantees: \<open>uuid4\<close> gives a race identifier not in use, and the
  clock reads a positive number of seconds since the epoch.
\<close>

fun enabled :: "sys \<Rightarrow> step \<Rightarrow> bool" where
  "enabled s (Create_race rid t now) = (RACE_STATES s rid = None)"
| "enabled s (Register_agent_run rid run now) = (0 < now)"
| "enabled s (Run_event run ev now) = (0 < now)"
| "enabled s (Human_submission rid sub t_start t_done) = (0 < t_start \<and> 0 < t_done)"
| "enabled s (Human_started rid now) = (0 < now)"
| "enabled s (Judge_done i outcome) = True"

fun run_steps :: "step list \<Rightarrow> sys \<Rightarrow> sys" where
  "run_steps [] s = s"
| "run_steps (st # tr) s = run_steps tr (exec st s)"

fun schedule :: "sys \<Rightarrow> step list \<Rightarrow> bool" where
  "schedule s [] = True"
| "schedule s (st # tr) = (enabled s st \<and> schedule (exec st s) tr)"

text \<open>
  The judgement tasks ever created for a race (each is one invocation of the judge), and
  how many of them are in a given state.
\<close>

definition tasks_of :: "sys \<Rightarrow> string \<Rightarrow> judge_task list" where
  "tasks_of s rid = filter (\<lambda>t. task_race t = rid) (judge_tasks s)"

definition judge_invocations :: "sys \<Rightarrow> string \<Rightarrow> nat" where
  "judge_invocations s rid = length (tasks_of s rid)"

definition count_tasks :: "sys \<Rightarrow> string \<Rightarrow> task_state \<Rightarrow> nat" where
  "count_tasks s rid st =
     length (filter (\<lambda>t. task_race t = rid \<and> task_state t = st) (judge_tasks s))"

definition pending_tasks :: "sys \<Rightarrow> string \<Rightarrow> nat" where
  "pending_tasks s rid = count_tasks s rid Task_pending"

definition verdict_stores :: "sys \<Rightarrow> string \<Rightarrow> nat" where
  "verdict_stores s rid = count_tasks s rid Task_stored"

definition aborted_tasks :: "sys \<Rightarrow> string \<Rightarrow> nat" where
  "aborted_tasks s rid = count_tasks s rid Task_aborted"

definition live_tasks :: "sys \<Rightarrow> string \<Rightarrow> judge_task list" where
  "live_tasks s rid =
     filter (\<lambda>t. task_race t = rid \<and> task_state t \<noteq> Task_aborted) (judge_tasks s)"

section \<open>Invariants of the reachable states\<close>

definition times_ok :: "ParticipantState \<Rightarrow> bool" where
  "times_ok p \<longleftrightarrow>
     (case completed_at p of
        None \<Rightarrow> duration_seconds p = None
                \<and> (case started_at p of None \<Rightarrow> True | Some st \<Rightarrow> st \<noteq> 0)
      | Some c \<Rightarrow> c \<noteq> 0
                \<and> (case started_at p of None \<Rightarrow> False
                    | Some st \<Rightarrow> st \<noteq> 0 \<and> duration_seconds p = Some (c - st)))"

definition human_ok :: "RaceState \<Rightarrow> bool" where
  "human_ok r \<longleftrightarrow>
     (if pstatus (human r) = ''pending''
      then started_at (human r) = None \<and> completed_at (human r) = None
           \<and> human_submission r = None
      else if pstatus (human r) = ''running''
      then started_at (human r) \<noteq> None \<and> completed_at (human r) = None
           \<and> human_submission r = None
      else pstatus (human r) = ''completed'' \<and> completed_at (human r) \<noteq> None
           \<and> human_submission r \<noteq> None)"

definition agent_ok :: "RaceState \<Rightarrow> bool" where
  "agent_ok r \<longleftrightarrow>
     (if agent_run_id r = None
      then agent r = pending_participant \<and> (status r = Ready \<or> status r = Running)
      else started_at (agent r) \<noteq> None)"

definition flags_ok :: "RaceState \<Rightarrow> bool" where
  "flags_ok r \<longleftrightarrow>
     (if finalizing r then status r = Judging \<and> verdict r = None else True)
     \<and> (status r = Completed) = (verdict r \<noteq> None)"

definition triggered :: "RaceState \<Rightarrow> bool" where
  "triggered r \<longleftrightarrow>
     (if agent_ready r \<and> human_ready r
      then finalizing r \<or> verdict r \<noteq> None \<or> status r = Judging else True)"

definition race_pre :: "RaceState \<Rightarrow> bool" where
  "race_pre r \<longleftrightarrow> times_ok (agent r) \<and> times_ok (human r) \<and> human_ok r \<and> agent_ok r \<and> flags_ok r"

definition race_inv :: "RaceState \<Rightarrow> bool" where
  "race_inv r \<longleftrightarrow> race_pre r \<and> triggered r"

definition expected_tasks :: "string \<Rightarrow> RaceState option \<Rightarrow> judge_task list" where
  "expected_tasks rid x =
     (case x of
        None \<Rightarrow> []
      | Some r \<Rightarrow>
          if finalizing r then [\<lparr>task_race = rid, task_state = Task_pending\<rparr>]
          else if verdict r \<noteq> None then [\<lparr>task_race = rid, task_state = Task_stored\<rparr>]
          else [])"

definition judging_ok :: "sys \<Rightarrow> string \<Rightarrow> RaceState \<Rightarrow> bool" where
  "judging_ok s rid r \<longleftrightarrow>
     (if status r = Judging then finalizing r \<or> 1 \<le> aborted_tasks s rid else True)"

definition sys_inv :: "sys \<Rightarrow> bool" where
  "sys_inv s \<longleftrightarrow>
     (\<forall>rid. live_tasks s rid = expected_tasks rid (RACE_STATES s rid))
     \<and> (\<forall>rid. RACE_STATES s rid = None \<longrightarrow> tasks_of s rid = [])
     \<and> (\<forall>rid r. RACE_STATES s rid = Some r \<longrightarrow> race_inv r \<and> judging_ok s rid r)
     \<and> (\<forall>run rid. RUN_TO_RACE s run = Some rid \<longrightarrow>
           (\<exists>r. RACE_STATES s rid = Some r \<and> agent_run_id r \<noteq> None))"

text \<open>
  What one step of a schedule can do to a single registered race: nothing, or the effect
  of one operation on it, under the condition the operation or the invariant puts on it.
\<close>

inductive race_step :: "RaceState \<Rightarrow> RaceState \<Rightarrow> bool" where
  unchanged: "race_step r r"
| registered: "agent_run_id r = None \<Longrightarrow> now \<noteq> 0 \<Longrightarrow> race_step r (register_effect run now r)"
| event: "agent_run_id r \<noteq> None \<Longrightarrow> now \<noteq> 0
          \<Longrightarrow> race_step r (fst (maybe_finalize (fst (apply_event ev now r))))"
| submitted: "t1 \<noteq> 0 \<Longrightarrow> t2 \<noteq> 0
          \<Longrightarrow> race_step r (fst (maybe_finalize (submit_effect sub t1 t2 r)))"
| started: "now \<noteq> 0 \<Longrightarrow> race_step r (started_effect now r)"
| judged: "finalizing r \<Longrightarrow> race_step r (run_judgement outcome r)"

text \<open>The order of the race-level statuses.\<close>

fun status_rank :: "race_status \<Rightarrow> nat" where
  "status_rank Ready = 0"
| "status_rank Running = 1"
| "status_rank Awaiting_human = 2"
| "status_rank Judging = 3"
| "status_rank Completed = 4"

text \<open>
  The duration of a participant is set exactly when both timestamps are, and is then
  their difference.
\<close>

definition duration_consistent :: "ParticipantState \<Rightarrow> bool" where
  "duration_consistent p \<longleftrightarrow>
     (duration_seconds p \<noteq> None) = (started_at p \<noteq> None \<and> completed_at p \<noteq> None)
     \<and> (case (started_at p, completed_at p, duration_seconds p) of
           (Some st, Some c, Some d) \<Rightarrow> d = c - st
         | _ \<Rightarrow> True)"

definition keeps_completed_at :: "ParticipantState \<Rightarrow> ParticipantState \<Rightarrow> bool" where
  "keeps_completed_at p p' \<longleftrightarrow>
     (case completed_at p of None \<Rightarrow> True | Some c \<Rightarrow> completed_at p' = Some c)"

section \<open>Event stream of a run (\<open>RunState\<close> in \<open>server.py\<close>)\<close>

text \<open>
  \<open>RunState\<close> with its incoming queue, the replay buffer and the listener set. A listener
  is an \<open>asyncio.Queue\<close> object; \<open>listener_queues\<close> is the store of these objects, addressed
  by allocation order, and holds for each the sequence of events put into it (a FIFO queue
  hands them to its reader in that order). \<open>listeners\<close> holds the addresses in
  \<open>self._listeners\<close>. The fields \<open>task\<close> and \<open>race_id\<close> carry the prefix \<open>run_\<close>, since
  \<open>RaceState\<close> has fields of these names.
\<close>

record RunState =
  run_id :: string
  run_task :: string
  run_race_id :: "string option"
  queue :: "event list"
  listeners :: "nat set"
  buffer :: "event list"
  dispatch_done :: bool
  listener_queues :: "event list list"

definition new_run :: "string \<Rightarrow> string \<Rightarrow> string option \<Rightarrow> RunState" where
  "new_run rid t race =
     \<lparr>run_id = rid, run_task = t, run_race_id = race, queue = [], listeners = {},
      buffer = [], dispatch_done = False, listener_queues = []\<rparr>"

text \<open>\<open>for listener in list(self._listeners): listener.put_nowait(event)\<close>.\<close>

definition put_all :: "nat set \<Rightarrow> event \<Rightarrow> event list list \<Rightarrow> event list list" where
  "put_all ls ev qs = map (\<lambda>i. if i \<in> ls then qs ! i @ [ev] else qs ! i) [0..<length qs]"

text \<open>
  One iteration of \<open>_dispatch_loop\<close>, from \<open>await self.queue.get()\<close> to the end of the loop
  body. With an empty queue the loop stays suspended. \<open>handle_run_event\<close> never suspends, so
  the iteration is one step of the scheduler. When \<open>handle_run_event\<close> raises, the loop is
  left through \<open>finally\<close>, which sets \<open>_dispatch_done\<close>; the \<open>break\<close> after a \<open>complete\<close>
  event leaves it the same way.
\<close>

definition dispatch_one :: "real \<Rightarrow> RunState \<times> sys \<Rightarrow> RunState \<times> sys" where
  "dispatch_one now x =
     (let rs = fst x; s = snd x in
      if dispatch_done rs then (rs, s)
      else
        (case queue rs of
           [] \<Rightarrow> (rs, s)
         | ev # q \<Rightarrow>
             let handled = (case run_race_id rs of
                              None \<Rightarrow> (Inr (), s)
                            | Some race \<Rightarrow>
                                if race = [] then (Inr (), s)
                                else handle_run_event (run_id rs) ev now s)
             in (case fst handled of
                   Inl e \<Rightarrow> (rs\<lparr>queue := q, dispatch_done := True\<rparr>, snd handled)
                 | Inr u \<Rightarrow>
                     (rs\<lparr>queue := q,
                         buffer := buffer rs @ [ev],
                         dispatch_done := (ev ''type'' = Some ''complete''),
                         listener_queues := put_all (listeners rs) ev (listener_queues rs)\<rparr>,
                      snd handled))))"

definition subscribe :: "RunState \<Rightarrow> nat \<times> RunState" where
  "subscribe rs =
     (let listener = length (listener_queues rs)
      in (listener,
          rs\<lparr>listener_queues := listener_queues rs @ [buffer rs],
             listeners := (if \<not> dispatch_done rs then insert listener (listeners rs)
                           else listeners rs)\<rparr>))"

definition unsubscribe :: "nat \<Rightarrow> RunState \<Rightarrow> RunState" where
  "unsubscribe listener rs = rs\<lparr>listeners := listeners rs - {listener}\<rparr>"

text \<open>
  What can happen to a run and the race manager around it: the agent puts an event on the
  queue, the dispatch loop runs one iteration, a client subscribes or unsubscribes, the
  dispatch task is cancelled (while it waits on the queue), or the race manager takes a
  step of its own.
\<close>

datatype run_op =
    Put event
  | Dispatch real
  | Subscribe
  | Unsubscribe nat
  | Cancel_dispatch
  | Manager step

fun run_op_exec :: "run_op \<Rightarrow> RunState \<times> sys \<Rightarrow> RunState \<times> sys" where
  "run_op_exec (Put ev) (rs, s) = (rs\<lparr>queue := queue rs @ [ev]\<rparr>, s)"
| "run_op_exec (Dispatch now) (rs, s) = dispatch_one now (rs, s)"
| "run_op_exec Subscribe (rs, s) = (snd (subscribe rs), s)"
| "run_op_exec (Unsubscribe l) (rs, s) = (unsubscribe l rs, s)"
| "run_op_exec Cancel_dispatch (rs, s) = (rs\<lparr>dispatch_done := True\<rparr>, s)"
| "run_op_exec (Manager st) (rs, s) = (rs, exec st s)"

fun run_ops :: "run_op list \<Rightarrow> RunState \<times> sys \<Rightarrow> RunState \<times> sys" where
  "run_ops [] x = x"
| "run_ops (op # ops) x = run_ops ops (run_op_exec op x)"

text \<open>
  The events the agent has put on the queue during a sequence of operations, in order; and
  the sequences in which the clock reads a positive time and the race manager takes
  enabled steps.
\<close>

fun emitted :: "run_op list \<Rightarrow> event list" where
  "emitted [] = []"
| "emitted (Put ev # ops) = ev # emitted ops"
| "emitted (op # ops) = emitted ops"

fun run_enabled :: "RunState \<times> sys \<Rightarrow> run_op \<Rightarrow> bool" where
  "run_enabled x (Dispatch now) = (0 < now)"
| "run_enabled x (Manager st) = enabled (snd x) st"
| "run_enabled x op = True"

fun run_schedule :: "RunState \<times> sys \<Rightarrow> run_op list \<Rightarrow> bool" where
  "run_schedule x [] = True"
| "run_schedule x (op # ops) = (run_enabled x op \<and> run_schedule (run_op_exec op x) ops)"

text \<open>What a listener obtained from \<open>subscribe\<close> keeps seeing, as long as it stays subscribed.\<close>

definition replayed :: "nat \<Rightarrow> RunState \<Rightarrow> bool" where
  "replayed l rs \<longleftrightarrow>
     l < length (listener_queues rs) \<and> listener_queues rs ! l = buffer rs
     \<and> (l \<in> listeners rs \<or> dispatch_done rs)"

section \<open>The judge's answer (tail of \<open>judge_race\<close> in \<open>llm.py\<close>)\<close>

text \<open>
  \<open>judge_race\<close> from the point where the response has been parsed into a dictionary. Two
  builtins of Python act on the parsed values and are arguments of the model: \<open>render\<close> is
  \<open>str\<close> on a value that is not a string, and \<open>to_float\<close> is \<open>float\<close>, which returns a float
  or raises. \<open>str.lower\<close> is taken on ASCII letters; no other character lowercases to a
  letter of \<open>agent\<close>, \<open>human\<close> or \<open>tie\<close>.
\<close>

definition lower_char :: "char \<Rightarrow> char" where
  "lower_char c =
     (case map_of (zip ''ABCDEFGHIJKLMNOPQRSTUVWXYZ'' ''abcdefghijklmnopqrstuvwxyz'') c of
        None \<Rightarrow> c
      | Some d \<Rightarrow> d)"

definition lower :: "string \<Rightarrow> string" where
  "lower s = map lower_char s"

definition str_of :: "(json \<Rightarrow> string) \<Rightarrow> json \<Rightarrow> string" where
  "str_of render v = (case v of JStr s \<Rightarrow> s | _ \<Rightarrow> render v)"

definition normalize_winner :: "(json \<Rightarrow> string) \<Rightarrow> json \<Rightarrow> string" where
  "normalize_winner render w =
     (let winner = lower (str_of render w)
      in if winner \<notin> {''agent'', ''human'', ''tie''} then ''tie'' else winner)"

text \<open>
  \<open>float(...)\<close> inside \<open>try\<close>: \<open>TypeError\<close> and \<open>ValueError\<close> become the \<open>RuntimeError\<close>
  "Judge response ... is not numeric", any other exception leaves \<open>judge_race\<close> as it is.
\<close>

definition score :: "(json \<Rightarrow> py_exc + real) \<Rightarrow> string \<Rightarrow> json \<Rightarrow> error + real" where
  "score to_float score_key v =
     (case to_float v of
        Inr x \<Rightarrow> Inr x
      | Inl exc \<Rightarrow>
          if exc = TypeError \<or> exc = ValueError then Inl (Judge_not_numeric score_key v)
          else Inl (Uncaught exc))"

definition normalize_verdict ::
  "(json \<Rightarrow> string) \<Rightarrow> (json \<Rightarrow> py_exc + real) \<Rightarrow> (string \<rightharpoonup> json) \<Rightarrow> error + Verdict" where
  "normalize_verdict render to_float v =
     (let missing = filter (\<lambda>k. v k = None) [''agent_score'', ''human_score'', ''reasoning'', ''winner'']
      in case (v ''winner'', v ''reasoning'', v ''agent_score'', v ''human_score'') of
           (Some w, Some rs, Some a, Some h) \<Rightarrow>
             (case score to_float ''agent_score'' a of
                Inl e \<Rightarrow> Inl e
              | Inr x \<Rightarrow>
                  (case score to_float ''human_score'' h of
                     Inl e \<Rightarrow> Inl e
                   | Inr y \<Rightarrow>
                       Inr \<lparr>winner = normalize_winner render w, reasoning = rs,
                            agent_score = x, human_score = y\<rparr>))
         | _ \<Rightarrow> Inl (Judge_missing_keys missing))"

section \<open>Sample values\<close>

definition sample_task :: "string \<Rightarrow> RaceTask" where
  "sample_task ty =
     \<lparr>title = ''Headline'', summary = ''Capture the headline'',
      human_instructions = ''Copy the headline'', agent_instructions = ''Extract the headline'',
      task_type = ty, success_criteria = ''Same headline'',
      expected_output_description = ''A short string'', evaluation_guidelines = []\<rparr>"

definition ev_status :: "string \<Rightarrow> event" where
  "ev_status st = [''type'' \<mapsto> ''status'', ''status'' \<mapsto> st]"

definition ev_result :: "string \<Rightarrow> event" where
  "ev_result res = [''type'' \<mapsto> ''result'', ''result'' \<mapsto> res]"

definition ev_error :: "string \<Rightarrow> event" where
  "ev_error msg = [''type'' \<mapsto> ''error'', ''message'' \<mapsto> msg]"

definition ev_complete :: event where
  "ev_complete = [''type'' \<mapsto> ''complete'']"

definition sample_verdict :: Verdict where
  "sample_verdict =
     \<lparr>winner = ''human'', reasoning = JStr ''The human was quicker'',
      agent_score = 6, human_score = 8.5\<rparr>"

fun sample_float :: "json \<Rightarrow> py_exc + real" where
  "sample_float (JFloat x) = Inr x"
| "sample_float (JInt i) = Inr (of_int i)"
| "sample_float (JBool b) = Inr (if b then 1 else 0)"
| "sample_float (JStr s) = Inl ValueError"
| "sample_float v = Inl TypeError"

fun sample_render :: "json \<Rightarrow> string" where
  "sample_render JNull = ''None''"
| "sample_render (JBool b) = (if b then ''True'' else ''False'')"
| "sample_render v = ''?''"

text \<open>
  A race in which both sides finish: the agent delivers its result, the human submits, the
  agent's run completes, and the judge answers.
\<close>

definition sample_race :: "step list" where
  "sample_race =
     [Create_race ''r1'' (sample_task ''text_entry'') 100,
      Register_agent_run ''r1'' ''a1'' 101,
      Human_started ''r1'' 102,
      Run_event ''a1'' (ev_status ''running'') 103,
      Run_event ''a1'' (ev_result ''Example Domain'') 110,
      Human_submission ''r1'' (Some ''Example Domain'') 111 112,
      Run_event ''a1'' ev_complete 113]"

definition sample_judged :: "step list" where
  "sample_judged = sample_race @ [Judge_done 0 (Returned sample_verdict)]"

text \<open>
  The same race when its judgement task is cancelled at its \<open>await\<close>, and the human then
  submits once more.
\<close>

definition sample_cancelled :: "step list" where
  "sample_cancelled = sample_race @ [Judge_done 0 Cancelled]"

text \<open>
  A race whose agent fails, with the events \<open>run_agent\<close> emits on an exception: \<open>error\<close>,
  then (from its \<open>finally\<close>) \<open>complete\<close>.
\<close>

definition failed_agent :: "step list" where
  "failed_agent =
     [Create_race ''r1'' (sample_task ''confirmation'') 100,
      Register_agent_run ''r1'' ''a1'' 101,
      Run_event ''a1'' (ev_status ''running'') 102,
      Run_event ''a1'' (ev_error ''boom'') 103]"

text \<open>
  A race whose agent run ends with a \<open>complete\<close> event and neither a result nor an error,
  followed by the human's submission.
\<close>

definition unready_agent :: "step list" where
  "unready_agent =
     [Create_race ''r1'' (sample_task ''text_entry'') 100,
      Register_agent_run ''r1'' ''a1'' 101,
      Run_event ''a1'' (ev_status ''running'') 102,
      Run_event ''a1'' ev_complete 103,
      Human_submission ''r1'' (Some ''Example Domain'') 104 105]"

definition sample_run :: "RunState \<times> sys" where
  "sample_run =
     run_ops [Put (ev_status ''starting''), Put (ev_status ''running''), Put (ev_result ''x''),
              Dispatch 1, Dispatch 2, Dispatch 3]
       (new_run ''a1'' ''the task'' None, init_sys)"

section \<open>Invariant preservation\<close>


lemma on_status_frame [simp]:
  "human (on_status ev now r) = human r"
  "human_submission (on_status ev now r) = human_submission r"
  "verdict (on_status ev now r) = verdict r"
  "finalizing (on_status ev now r) = finalizing r"
  "agent_run_id (on_status ev now r) = agent_run_id r"
  "status (on_status ev now r) = status r"
  "task (on_status ev now r) = task r"
  by (simp_all add: on_status_def split: option.splits)

lemma on_live_url_frame [simp]:
  "human (on_live_url ev r) = human r"
  "human_submission (on_live_url ev r) = human_submission r"
  "verdict (on_live_url ev r) = verdict r"
  "finalizing (on_live_url ev r) = finalizing r"
  "agent_run_id (on_live_url ev r) = agent_run_id r"
  "status (on_live_url ev r) = status r"
  "task (on_live_url ev r) = task r"
  by (simp_all add: on_live_url_def split: option.splits)

lemma on_result_frame [simp]:
  "human (on_result ev now r) = human r"
  "human_submission (on_result ev now r) = human_submission r"
  "verdict (on_result ev now r) = verdict r"
  "finalizing (on_result ev now r) = finalizing r"
  "agent_run_id (on_result ev now r) = agent_run_id r"
  "status (on_result ev now r) = status r"
  "task (on_result ev now r) = task r"
  by (simp_all add: on_result_def Let_def split: option.splits)

lemma on_error_frame [simp]:
  "human (on_error r) = human r"
  "human_submission (on_error r) = human_submission r"
  "verdict (on_error r) = verdict r"
  "finalizing (on_error r) = finalizing r"
  "agent_run_id (on_error r) = agent_run_id r"
  "status (on_error r) = status r"
  "task (on_error r) = task r"
  by (simp_all add: on_error_def)

lemma on_complete_frame [simp]:
  "human (on_complete now r) = human r"
  "human_submission (on_complete now r) = human_submission r"
  "verdict (on_complete now r) = verdict r"
  "finalizing (on_complete now r) = finalizing r"
  "agent_run_id (on_complete now r) = agent_run_id r"
  "task (on_complete now r) = task r"
  by (simp_all add: on_complete_def Let_def split: option.splits)

lemma on_complete_status:
  "status (on_complete now r) =
     (if status r \<noteq> Judging \<and> status r \<noteq> Completed \<and> pstatus (human r) \<noteq> ''completed''
      then Awaiting_human else status r)"
  by (simp add: on_complete_def Let_def split: option.splits)

lemma times_ok_on_status:
  "times_ok (agent r) \<Longrightarrow> started_at (agent r) \<noteq> None \<Longrightarrow> times_ok (agent (on_status ev now r))"
  by (auto simp: times_ok_def on_status_def split: option.splits)

lemma times_ok_on_live_url:
  "times_ok (agent r) \<Longrightarrow> times_ok (agent (on_live_url ev r))"
  by (auto simp: times_ok_def on_live_url_def split: option.splits)

lemma times_ok_on_result:
  "times_ok (agent r) \<Longrightarrow> started_at (agent r) \<noteq> None \<Longrightarrow> now \<noteq> 0
   \<Longrightarrow> times_ok (agent (on_result ev now r))"
  by (auto simp: times_ok_def on_result_def or_time_def Let_def split: option.splits)

lemma times_ok_on_error:
  "times_ok (agent r) \<Longrightarrow> times_ok (agent (on_error r))"
  by (auto simp: times_ok_def on_error_def split: option.splits)

lemma times_ok_on_complete:
  "times_ok (agent r) \<Longrightarrow> started_at (agent r) \<noteq> None \<Longrightarrow> now \<noteq> 0
   \<Longrightarrow> times_ok (agent (on_complete now r))"
  by (auto simp: times_ok_def on_complete_def or_time_def Let_def split: option.splits)


lemma started_on_status: "started_at (agent r) \<noteq> None \<Longrightarrow> started_at (agent (on_status ev now r)) \<noteq> None"
  by (simp add: on_status_def split: option.splits)

lemma started_on_live_url: "started_at (agent r) \<noteq> None \<Longrightarrow> started_at (agent (on_live_url ev r)) \<noteq> None"
  by (simp add: on_live_url_def split: option.splits)

lemma started_on_result: "started_at (agent r) \<noteq> None \<Longrightarrow> started_at (agent (on_result ev now r)) \<noteq> None"
  by (auto simp add: on_result_def Let_def split: option.splits)

lemma started_on_error: "started_at (agent r) \<noteq> None \<Longrightarrow> started_at (agent (on_error r)) \<noteq> None"
  by (simp add: on_error_def)

lemma started_on_complete: "started_at (agent r) \<noteq> None \<Longrightarrow> started_at (agent (on_complete now r)) \<noteq> None"
  by (auto simp add: on_complete_def Let_def split: option.splits)

lemma race_pre_on_status:
  "race_pre r \<Longrightarrow> agent_run_id r \<noteq> None \<Longrightarrow> race_pre (on_status ev now r)"
  by (auto simp add: race_pre_def human_ok_def agent_ok_def flags_ok_def times_ok_on_status started_on_status)

lemma race_pre_on_live_url:
  "race_pre r \<Longrightarrow> agent_run_id r \<noteq> None \<Longrightarrow> race_pre (on_live_url ev r)"
  by (auto simp add: race_pre_def human_ok_def agent_ok_def flags_ok_def times_ok_on_live_url started_on_live_url)

lemma race_pre_on_result:
  "race_pre r \<Longrightarrow> agent_run_id r \<noteq> None \<Longrightarrow> now \<noteq> 0 \<Longrightarrow> race_pre (on_result ev now r)"
  by (auto simp add: race_pre_def human_ok_def agent_ok_def flags_ok_def times_ok_on_result started_on_result)

lemma race_pre_on_error:
  "race_pre r \<Longrightarrow> agent_run_id r \<noteq> None \<Longrightarrow> race_pre (on_error r)"
  by (auto simp add: race_pre_def human_ok_def agent_ok_def flags_ok_def times_ok_on_error started_on_error)

lemma race_pre_on_complete:
  "race_pre r \<Longrightarrow> agent_run_id r \<noteq> None \<Longrightarrow> now \<noteq> 0 \<Longrightarrow> race_pre (on_complete now r)"
  by (auto simp add: race_pre_def human_ok_def agent_ok_def flags_ok_def times_ok_on_complete
        started_on_complete on_complete_status)

lemma race_pre_apply_event:
  "race_pre r \<Longrightarrow> agent_run_id r \<noteq> None \<Longrightarrow> now \<noteq> 0 \<Longrightarrow> race_pre (fst (apply_event ev now r))"
  by (simp add: apply_event_def Let_def race_pre_on_status race_pre_on_live_url race_pre_on_result
        race_pre_on_error race_pre_on_complete)

lemma apply_event_run_id [simp]: "agent_run_id (fst (apply_event ev now r)) = agent_run_id r"
  by (simp add: apply_event_def Let_def)

lemma maybe_finalize_eq:
  "maybe_finalize r =
     (if verdict r = None \<and> \<not> finalizing r \<and> agent_ready r \<and> human_ready r
      then (r\<lparr>finalizing := True, status := Judging\<rparr>, True) else (r, False))"
  by (simp add: maybe_finalize_def)

lemma pending_not_ready: "agent r = pending_participant \<Longrightarrow> \<not> agent_ready r"
  by (simp add: agent_ready_def pending_participant_def)

lemma ready_frame [simp]:
  "agent_ready (r\<lparr>finalizing := f, status := st\<rparr>) = agent_ready r"
  "human_ready (r\<lparr>finalizing := f, status := st\<rparr>) = human_ready r"
  by (simp_all add: agent_ready_def human_ready_def)

lemma race_inv_maybe_finalize: "race_pre r \<Longrightarrow> race_inv (fst (maybe_finalize r))"
proof (cases "verdict r = None \<and> \<not> finalizing r \<and> agent_ready r \<and> human_ready r")
  case True
  assume pre: "race_pre r"
  from True pre have "agent_run_id r \<noteq> None"
    using pending_not_ready [of r] by (auto simp: race_pre_def agent_ok_def split: if_splits)
  with True pre show ?thesis
    by (simp add: maybe_finalize_eq race_inv_def race_pre_def triggered_def human_ok_def agent_ok_def flags_ok_def)
next
  case False
  assume pre: "race_pre r"
  with False show ?thesis
    by (auto simp add: maybe_finalize_eq race_inv_def triggered_def)
qed

lemma maybe_finalize_run_id [simp]: "agent_run_id (fst (maybe_finalize r)) = agent_run_id r"
  by (simp add: maybe_finalize_eq)

lemma human_ok_cases:
  assumes "human_ok r"
  obtains
    (pending) "pstatus (human r) = ''pending''" "started_at (human r) = None"
      "completed_at (human r) = None" "human_submission r = None"
  | (running) "pstatus (human r) = ''running''" "started_at (human r) \<noteq> None"
      "completed_at (human r) = None" "human_submission r = None"
  | (completed) "pstatus (human r) = ''completed''" "completed_at (human r) \<noteq> None"
      "human_submission r \<noteq> None"
proof (cases "pstatus (human r) = ''pending''")
  case True
  with assms pending show ?thesis by (simp add: human_ok_def)
next
  case np: False
  show ?thesis
  proof (cases "pstatus (human r) = ''running''")
    case True
    with assms running show ?thesis by (simp add: human_ok_def)
  next
    case False
    with np assms completed show ?thesis by (simp add: human_ok_def)
  qed
qed

lemma submit_frame [simp]:
  "agent (submit_effect sub t1 t2 r) = agent r"
  "agent_run_id (submit_effect sub t1 t2 r) = agent_run_id r"
  "status (submit_effect sub t1 t2 r) = status r"
  "verdict (submit_effect sub t1 t2 r) = verdict r"
  "finalizing (submit_effect sub t1 t2 r) = finalizing r"
  "task (submit_effect sub t1 t2 r) = task r"
  "human_submission (submit_effect sub t1 t2 r) = Some (or_empty sub)"
  "pstatus (human (submit_effect sub t1 t2 r)) = ''completed''"
  "completed_at (human (submit_effect sub t1 t2 r)) = Some (or_time (completed_at (human r)) t2)"
  by (simp_all add: submit_effect_def Let_def split: option.splits)

lemma times_ok_submit:
  assumes "times_ok (human r)" and "human_ok r" and "t1 \<noteq> 0" and "t2 \<noteq> 0"
  shows "times_ok (human (submit_effect sub t1 t2 r))"
  using assms(2)
proof (cases rule: human_ok_cases)
  case pending
  with assms show ?thesis
    by (simp add: times_ok_def submit_effect_def or_time_def Let_def)
next
  case running
  then obtain st where "started_at (human r) = Some st" by auto
  with running assms show ?thesis
    by (simp add: times_ok_def submit_effect_def or_time_def Let_def)
next
  case completed
  then obtain c where c: "completed_at (human r) = Some c" by auto
  with assms(1) obtain st where "started_at (human r) = Some st" "st \<noteq> 0" "c \<noteq> 0"
    "duration_seconds (human r) = Some (c - st)"
    by (auto simp: times_ok_def split: option.splits)
  with c completed show ?thesis
    by (simp add: times_ok_def submit_effect_def or_time_def Let_def)
qed

lemma race_pre_submit:
  "race_pre r \<Longrightarrow> t1 \<noteq> 0 \<Longrightarrow> t2 \<noteq> 0 \<Longrightarrow> race_pre (submit_effect sub t1 t2 r)"
  by (simp add: race_pre_def times_ok_submit human_ok_def agent_ok_def flags_ok_def)

lemma started_frame [simp]:
  "agent (started_effect now r) = agent r"
  "agent_run_id (started_effect now r) = agent_run_id r"
  "verdict (started_effect now r) = verdict r"
  "finalizing (started_effect now r) = finalizing r"
  "task (started_effect now r) = task r"
  "human_submission (started_effect now r) = human_submission r"
  by (simp_all add: started_effect_def Let_def)

lemma started_effect_eq:
  "started_effect now r =
     (if pstatus (human r) = ''pending''
      then r\<lparr>human := (human r)\<lparr>pstatus := ''running'',
                 started_at := Some (or_time (started_at (human r)) now)\<rparr>,
             status := (if status r = Ready then Running else status r)\<rparr>
      else r)"
  by (simp add: started_effect_def Let_def)

lemma started_status:
  "status (started_effect now r) =
     (if pstatus (human r) = ''pending'' \<and> status r = Ready then Running else status r)"
  by (simp add: started_effect_eq)

lemma times_ok_started:
  assumes "times_ok (human r)" and "human_ok r" and "now \<noteq> 0"
  shows "times_ok (human (started_effect now r))"
proof (cases "pstatus (human r) = ''pending''")
  case True
  with assms have "started_at (human r) = None" "completed_at (human r) = None"
    by (simp_all add: human_ok_def)
  with True assms show ?thesis
    by (simp add: started_effect_eq times_ok_def or_time_def)
next
  case False
  with assms show ?thesis by (simp add: started_effect_eq)
qed

lemma human_ok_started:
  assumes "human_ok r"
  shows "human_ok (started_effect now r)"
proof (cases "pstatus (human r) = ''pending''")
  case True
  with assms have "completed_at (human r) = None" "human_submission r = None"
    by (simp_all add: human_ok_def)
  with True show ?thesis
    by (simp add: started_effect_eq human_ok_def)
next
  case False
  with assms show ?thesis by (simp add: started_effect_eq)
qed

lemma started_ready [simp]:
  "agent_ready (started_effect now r) = agent_ready r"
  by (simp add: agent_ready_def)

lemma started_human_ready:
  assumes "human_ok r"
  shows "human_ready (started_effect now r) = human_ready r"
proof (cases "pstatus (human r) = ''pending''")
  case True
  then show ?thesis by (simp add: started_effect_eq human_ready_def)
next
  case False
  then show ?thesis by (simp add: started_effect_eq)
qed

lemma agent_ok_started: "agent_ok r \<Longrightarrow> agent_ok (started_effect now r)"
  by (auto simp add: agent_ok_def started_status)

lemma flags_ok_started: "flags_ok r \<Longrightarrow> flags_ok (started_effect now r)"
  by (auto simp add: flags_ok_def started_status)

lemma race_inv_started:
  "race_inv r \<Longrightarrow> now \<noteq> 0 \<Longrightarrow> race_inv (started_effect now r)"
  by (auto simp add: race_inv_def race_pre_def times_ok_started human_ok_started started_human_ready
        agent_ok_started flags_ok_started triggered_def started_status split: if_splits)

lemma register_frame [simp]:
  "human (register_effect run now r) = human r"
  "human_submission (register_effect run now r) = human_submission r"
  "verdict (register_effect run now r) = verdict r"
  "finalizing (register_effect run now r) = finalizing r"
  "task (register_effect run now r) = task r"
  "status (register_effect run now r) = Running"
  "agent_run_id (register_effect run now r) = Some run"
  by (simp_all add: register_effect_def)

lemma race_inv_register:
  assumes "race_inv r" and "agent_run_id r = None" and "now \<noteq> 0"
  shows "race_inv (register_effect run now r)"
proof -
  from assms have a: "agent r = pending_participant" and st: "status r = Ready \<or> status r = Running"
    by (simp_all add: race_inv_def race_pre_def agent_ok_def)
  from assms have fl: "flags_ok r" and h: "human_ok r" and th: "times_ok (human r)"
    by (simp_all add: race_inv_def race_pre_def)
  from a assms(3) have ta: "times_ok (agent (register_effect run now r))"
    by (simp add: register_effect_def times_ok_def pending_participant_def or_time_def)
  from a have nr: "\<not> agent_ready (register_effect run now r)"
    by (simp add: register_effect_def agent_ready_def pending_participant_def)
  from fl st have fl': "flags_ok (register_effect run now r)"
    by (auto simp add: flags_ok_def)
  from h have h': "human_ok (register_effect run now r)"
    by (simp add: human_ok_def)
  have ag: "agent_ok (register_effect run now r)"
    by (simp add: agent_ok_def register_effect_def)
  from ta th h' ag fl' nr show ?thesis
    by (simp add: race_inv_def race_pre_def triggered_def)
qed

lemma race_inv_new: "race_inv (new_race rid t now)"
  by (simp add: race_inv_def race_pre_def triggered_def times_ok_def human_ok_def agent_ok_def
      flags_ok_def new_race_def pending_participant_def agent_ready_def human_ready_def)

lemma judged_frame [simp]:
  "agent (run_judgement outcome r) = agent r"
  "human (run_judgement outcome r) = human r"
  "human_submission (run_judgement outcome r) = human_submission r"
  "agent_run_id (run_judgement outcome r) = agent_run_id r"
  "task (run_judgement outcome r) = task r"
  "finalizing (run_judgement outcome r) = False"
  by (simp_all add: run_judgement_def split: judge_outcome.splits)

lemma judged_status:
  "status (run_judgement outcome r) = (if outcome = Cancelled then status r else Completed)"
  "(verdict (run_judgement outcome r) = None) = (outcome = Cancelled \<and> verdict r = None)"
  by (simp_all add: run_judgement_def split: judge_outcome.splits)

lemma judged_ready [simp]:
  "agent_ready (run_judgement outcome r) = agent_ready r"
  "human_ready (run_judgement outcome r) = human_ready r"
  by (simp_all add: agent_ready_def human_ready_def)

lemma race_inv_judged:
  assumes "race_inv r" and "finalizing r"
  shows "race_inv (run_judgement outcome r)"
proof -
  from assms have st: "status r = Judging" and v: "verdict r = None"
    by (simp_all add: race_inv_def race_pre_def flags_ok_def)
  with assms(1) have "agent_run_id r \<noteq> None"
    by (auto simp add: race_inv_def race_pre_def agent_ok_def split: if_splits)
  with assms(1) st v show ?thesis
    by (auto simp add: race_inv_def race_pre_def triggered_def human_ok_def agent_ok_def
          flags_ok_def judged_status)
qed

lemma filter_update_other:
  "\<not> P (xs ! i) \<Longrightarrow> \<not> P y \<Longrightarrow> filter P (xs[i := y]) = filter P xs"
proof (induction xs arbitrary: i)
  case Nil
  then show ?case by simp
next
  case (Cons x xs)
  then show ?case by (cases i) simp_all
qed

lemma filter_update_single:
  "i < length xs \<Longrightarrow> P (xs ! i) \<Longrightarrow> filter P xs = [z]
   \<Longrightarrow> filter P (xs[i := y]) = (if P y then [y] else []) \<and> z = xs ! i"
proof (induction xs arbitrary: i)
  case Nil
  then show ?case by simp
next
  case (Cons x xs)
  show ?case
  proof (cases i)
    case 0
    with Cons.prems show ?thesis by simp
  next
    case (Suc j)
    with Cons.prems have j: "j < length xs" "P (xs ! j)" by simp_all
    then have ne: "filter P xs \<noteq> []" by (auto simp: filter_empty_conv)
    with Cons.prems have "\<not> P x" by (auto split: if_splits)
    with Cons.prems Cons.IH [OF j] Suc show ?thesis by simp
  qed
qed

lemma count_update_other:
  "\<not> P (xs ! i) \<Longrightarrow> \<not> P y \<Longrightarrow> length (filter P (xs[i := y])) = length (filter P xs)"
  by (simp add: filter_update_other)

lemma count_update_gain:
  "i < length xs \<Longrightarrow> P y \<Longrightarrow> 1 \<le> length (filter P (xs[i := y]))"
proof -
  assume "i < length xs" and "P y"
  then have "y \<in> set (filter P (xs[i := y]))" by (simp add: set_update_memI)
  then show ?thesis by (cases "filter P (xs[i := y])") simp_all
qed

lemma tasks_of_spawn:
  "filter (\<lambda>t. task_race t = rid') (spawn rid created ts) =
     filter (\<lambda>t. task_race t = rid') ts
     @ (if created \<and> rid' = rid then [\<lparr>task_race = rid, task_state = Task_pending\<rparr>] else [])"
  by (simp add: spawn_def)

lemma live_tasks_spawn:
  "filter (\<lambda>t. task_race t = rid' \<and> task_state t \<noteq> Task_aborted) (spawn rid created ts) =
     filter (\<lambda>t. task_race t = rid' \<and> task_state t \<noteq> Task_aborted) ts
     @ (if created \<and> rid' = rid then [\<lparr>task_race = rid, task_state = Task_pending\<rparr>] else [])"
  by (simp add: spawn_def)

lemma aborted_spawn:
  "filter (\<lambda>t. task_race t = rid' \<and> task_state t = Task_aborted) (spawn rid created ts) =
     filter (\<lambda>t. task_race t = rid' \<and> task_state t = Task_aborted) ts"
  by (simp add: spawn_def)

lemma expected_tasks_cong:
  "finalizing r' = finalizing r \<Longrightarrow> (verdict r' = None) = (verdict r = None)
   \<Longrightarrow> expected_tasks rid (Some r') = expected_tasks rid (Some r)"
  by (simp add: expected_tasks_def)

lemma sys_invI:
  assumes inv: "sys_inv s"
    and races: "RACE_STATES s' = (RACE_STATES s)(rid \<mapsto> r')"
    and r': "race_inv r'"
    and others: "\<And>rid'. rid' \<noteq> rid \<Longrightarrow>
        filter (\<lambda>t. task_race t = rid') (judge_tasks s')
          = filter (\<lambda>t. task_race t = rid') (judge_tasks s)
        \<and> live_tasks s' rid' = live_tasks s rid'
        \<and> aborted_tasks s' rid' = aborted_tasks s rid'"
    and live: "live_tasks s' rid = expected_tasks rid (Some r')"
    and judging: "judging_ok s' rid r'"
    and m: "\<And>run rid'. RUN_TO_RACE s' run = Some rid' \<Longrightarrow> rid' \<noteq> rid
               \<Longrightarrow> RUN_TO_RACE s run = Some rid'"
    and m2: "\<And>run. RUN_TO_RACE s' run = Some rid \<Longrightarrow> agent_run_id r' \<noteq> None"
  shows "sys_inv s'"
  unfolding sys_inv_def
proof (intro conjI allI impI)
  fix rid'
  from inv have "live_tasks s rid' = expected_tasks rid' (RACE_STATES s rid')"
    by (simp add: sys_inv_def)
  then show "live_tasks s' rid' = expected_tasks rid' (RACE_STATES s' rid')"
    using others [of rid'] live by (cases "rid' = rid") (simp_all add: races)
next
  fix rid'
  assume n: "RACE_STATES s' rid' = None"
  then have ne: "rid' \<noteq> rid" and "RACE_STATES s rid' = None"
    by (auto simp add: races split: if_splits)
  with inv have "tasks_of s rid' = []" by (simp add: sys_inv_def)
  with others [OF ne] show "tasks_of s' rid' = []" by (simp add: tasks_of_def)
next
  fix rid' r
  assume a: "RACE_STATES s' rid' = Some r"
  show "race_inv r"
    using a inv r' by (auto simp add: races sys_inv_def split: if_splits)
  show "judging_ok s' rid' r"
  proof (cases "rid' = rid")
    case True
    with a judging show ?thesis by (simp add: races)
  next
    case False
    with a have "RACE_STATES s rid' = Some r" by (simp add: races)
    with inv have "judging_ok s rid' r" by (simp add: sys_inv_def)
    with others [OF False] show ?thesis by (auto simp add: judging_ok_def split: if_splits)
  qed
next
  fix run rid'
  assume e: "RUN_TO_RACE s' run = Some rid'"
  show "\<exists>r. RACE_STATES s' rid' = Some r \<and> agent_run_id r \<noteq> None"
  proof (cases "rid' = rid")
    case True
    with e m2 show ?thesis by (simp add: races)
  next
    case False
    with e m have "RUN_TO_RACE s run = Some rid'" by simp
    with inv False show ?thesis by (simp add: races sys_inv_def)
  qed
qed

lemma sys_inv_init: "sys_inv init_sys"
  by (simp add: sys_inv_def init_sys_def tasks_of_def live_tasks_def expected_tasks_def)

lemma sys_inv_race: "sys_inv s \<Longrightarrow> RACE_STATES s rid = Some r \<Longrightarrow> race_inv r"
  by (simp add: sys_inv_def)

lemma sys_inv_judging: "sys_inv s \<Longrightarrow> RACE_STATES s rid = Some r \<Longrightarrow> judging_ok s rid r"
  by (simp add: sys_inv_def)

lemma sys_inv_tasks: "sys_inv s \<Longrightarrow> live_tasks s rid = expected_tasks rid (RACE_STATES s rid)"
  by (simp add: sys_inv_def)

lemma sys_inv_no_race: "sys_inv s \<Longrightarrow> RACE_STATES s rid = None \<Longrightarrow> tasks_of s rid = []"
  by (simp add: sys_inv_def)

lemma sys_inv_run:
  "sys_inv s \<Longrightarrow> RUN_TO_RACE s run = Some rid
   \<Longrightarrow> \<exists>r. RACE_STATES s rid = Some r \<and> agent_run_id r \<noteq> None"
  by (simp add: sys_inv_def)

text \<open>A step that replaces one race and leaves the judgement tasks alone.\<close>

lemma sys_inv_race_update:
  assumes inv: "sys_inv s"
    and races: "RACE_STATES s' = (RACE_STATES s)(rid \<mapsto> r')"
    and tasks: "judge_tasks s' = judge_tasks s"
    and r': "race_inv r'"
    and ex: "expected_tasks rid (Some r') = expected_tasks rid (RACE_STATES s rid)"
    and judging: "status r' = Judging \<Longrightarrow>
        \<exists>r. RACE_STATES s rid = Some r \<and> status r = Judging \<and> (finalizing r \<longrightarrow> finalizing r')"
    and m: "\<And>run rid'. RUN_TO_RACE s' run = Some rid' \<Longrightarrow> rid' \<noteq> rid
               \<Longrightarrow> RUN_TO_RACE s run = Some rid'"
    and m2: "\<And>run. RUN_TO_RACE s' run = Some rid \<Longrightarrow> agent_run_id r' \<noteq> None"
  shows "sys_inv s'"
proof (rule sys_invI [OF inv races r' _ _ _ m m2])
  show "filter (\<lambda>t. task_race t = rid') (judge_tasks s')
          = filter (\<lambda>t. task_race t = rid') (judge_tasks s)
        \<and> live_tasks s' rid' = live_tasks s rid'
        \<and> aborted_tasks s' rid' = aborted_tasks s rid'" for rid'
    by (simp add: tasks live_tasks_def aborted_tasks_def count_tasks_def)
  show "live_tasks s' rid = expected_tasks rid (Some r')"
    using sys_inv_tasks [OF inv, of rid] by (simp add: ex live_tasks_def tasks)
  show "judging_ok s' rid r'"
  proof (cases "status r' = Judging")
    case True
    from judging [OF True] obtain r where r: "RACE_STATES s rid = Some r" "status r = Judging"
      "finalizing r \<longrightarrow> finalizing r'" by blast
    from sys_inv_judging [OF inv r(1)] r(2,3) show ?thesis
      by (auto simp add: judging_ok_def aborted_tasks_def count_tasks_def tasks)
  next
    case False
    then show ?thesis by (simp add: judging_ok_def)
  qed
qed

lemma sys_inv_create:
  assumes "sys_inv s" and "RACE_STATES s rid = None"
  shows "sys_inv (create_race rid t now s)"
proof (rule sys_inv_race_update [OF assms(1), where rid = rid and r' = "new_race rid t now"])
  show "RACE_STATES (create_race rid t now s) = (RACE_STATES s)(rid \<mapsto> new_race rid t now)"
    by (simp add: create_race_def)
  show "judge_tasks (create_race rid t now s) = judge_tasks s" by (simp add: create_race_def)
  show "race_inv (new_race rid t now)" by (rule race_inv_new)
  show "expected_tasks rid (Some (new_race rid t now)) = expected_tasks rid (RACE_STATES s rid)"
    using assms(2) by (simp add: expected_tasks_def new_race_def)
  show "\<exists>r. RACE_STATES s rid = Some r \<and> status r = Judging
           \<and> (finalizing r \<longrightarrow> finalizing (new_race rid t now))"
    if "status (new_race rid t now) = Judging"
    using that by (simp add: new_race_def)
  show "RUN_TO_RACE s run = Some rid'"
    if "RUN_TO_RACE (create_race rid t now s) run = Some rid'" for run rid'
    using that by (simp add: create_race_def)
  show "agent_run_id (new_race rid t now) \<noteq> None"
    if "RUN_TO_RACE (create_race rid t now s) run = Some rid" for run
    using that sys_inv_run [OF assms(1), of run rid] assms(2) by (simp add: create_race_def)
qed

lemma sys_inv_register:
  assumes "sys_inv s" and "now \<noteq> 0"
  shows "sys_inv (snd (register_agent_run rid run now s))"
proof (cases "RACE_STATES s rid")
  case None
  with assms show ?thesis by (simp add: register_agent_run_def get_race_def)
next
  case (Some r)
  show ?thesis
  proof (cases "agent_run_id r = None")
    case False
    with Some assms show ?thesis by (simp add: register_agent_run_def get_race_def)
  next
    case True
    let ?s' = "snd (register_agent_run rid run now s)"
    from Some True have s': "?s' = s\<lparr>RACE_STATES := (RACE_STATES s)(rid \<mapsto> register_effect run now r),
               RUN_TO_RACE := (RUN_TO_RACE s)(run \<mapsto> rid)\<rparr>"
      by (simp add: register_agent_run_def get_race_def)
    show ?thesis
    proof (rule sys_inv_race_update [OF assms(1), where rid = rid and r' = "register_effect run now r"])
      show "RACE_STATES ?s' = (RACE_STATES s)(rid \<mapsto> register_effect run now r)"
        by (simp add: s')
      show "judge_tasks ?s' = judge_tasks s" by (simp add: s')
      show "race_inv (register_effect run now r)"
        using sys_inv_race [OF assms(1) Some] True assms(2) by (rule race_inv_register)
      show "expected_tasks rid (Some (register_effect run now r)) = expected_tasks rid (RACE_STATES s rid)"
        by (simp add: Some expected_tasks_def)
      show "\<exists>r0. RACE_STATES s rid = Some r0 \<and> status r0 = Judging
           \<and> (finalizing r0 \<longrightarrow> finalizing (register_effect run now r))"
        if "status (register_effect run now r) = Judging"
        using that by simp
      show "RUN_TO_RACE s run' = Some rid'"
        if "RUN_TO_RACE ?s' run' = Some rid'" "rid' \<noteq> rid" for run' rid'
        using that by (simp add: s' split: if_splits)
      show "agent_run_id (register_effect run now r) \<noteq> None"
        if "RUN_TO_RACE ?s' run' = Some rid" for run'
        by simp
    qed
  qed
qed

lemma sys_inv_started:
  assumes "sys_inv s" and "now \<noteq> 0"
  shows "sys_inv (snd (mark_human_started rid now s))"
proof (cases "RACE_STATES s rid")
  case None
  with assms show ?thesis by (simp add: mark_human_started_def get_race_def)
next
  case (Some r)
  let ?s' = "snd (mark_human_started rid now s)"
  from Some have s': "?s' = s\<lparr>RACE_STATES := (RACE_STATES s)(rid \<mapsto> started_effect now r)\<rparr>"
    by (simp add: mark_human_started_def get_race_def Let_def)
  show ?thesis
  proof (rule sys_inv_race_update [OF assms(1), where rid = rid and r' = "started_effect now r"])
    show "RACE_STATES ?s' = (RACE_STATES s)(rid \<mapsto> started_effect now r)"
      by (simp add: s')
    show "judge_tasks ?s' = judge_tasks s" by (simp add: s')
    show "race_inv (started_effect now r)"
      using sys_inv_race [OF assms(1) Some] assms(2) by (rule race_inv_started)
    show "expected_tasks rid (Some (started_effect now r)) = expected_tasks rid (RACE_STATES s rid)"
      by (simp add: Some expected_tasks_def)
    show "\<exists>r0. RACE_STATES s rid = Some r0 \<and> status r0 = Judging
           \<and> (finalizing r0 \<longrightarrow> finalizing (started_effect now r))"
      if "status (started_effect now r) = Judging"
      using that Some by (simp add: started_status split: if_splits)
    show "RUN_TO_RACE s run' = Some rid'"
      if "RUN_TO_RACE ?s' run' = Some rid'" "rid' \<noteq> rid" for run' rid'
      using that by (simp add: s')
    show "agent_run_id (started_effect now r) \<noteq> None"
      if "RUN_TO_RACE ?s' run' = Some rid" for run'
      using that sys_inv_run [OF assms(1), of run' rid] Some by (simp add: s')
  qed
qed

lemma apply_event_frame [simp]:
  "human (fst (apply_event ev now r)) = human r"
  "human_submission (fst (apply_event ev now r)) = human_submission r"
  "verdict (fst (apply_event ev now r)) = verdict r"
  "finalizing (fst (apply_event ev now r)) = finalizing r"
  "task (fst (apply_event ev now r)) = task r"
  by (simp_all add: apply_event_def Let_def)

lemma apply_event_status:
  "status (fst (apply_event ev now r)) = status r
   \<or> (status (fst (apply_event ev now r)) = Awaiting_human
       \<and> status r \<noteq> Judging \<and> status r \<noteq> Completed)"
  by (simp add: apply_event_def Let_def on_complete_status)

lemma expected_tasks_finalize:
  "expected_tasks rid (Some (fst (maybe_finalize r))) =
     expected_tasks rid (Some r)
     @ (if snd (maybe_finalize r) then [\<lparr>task_race = rid, task_state = Task_pending\<rparr>] else [])"
  by (simp add: maybe_finalize_eq expected_tasks_def)

lemma maybe_finalize_status:
  "status (fst (maybe_finalize r)) = (if snd (maybe_finalize r) then Judging else status r)"
  "finalizing (fst (maybe_finalize r)) = (finalizing r \<or> snd (maybe_finalize r))"
  by (simp_all add: maybe_finalize_eq)

text \<open>
  A step that replaces one race by the outcome of \<open>_maybe_finalize\<close> and appends the task
  it may have created.
\<close>

lemma sys_inv_finalize_update:
  assumes inv: "sys_inv s"
    and r: "RACE_STATES s rid = Some r"
    and races: "RACE_STATES s' = (RACE_STATES s)(rid \<mapsto> fst (maybe_finalize r1))"
    and tasks: "judge_tasks s' = spawn rid (snd (maybe_finalize r1)) (judge_tasks s)"
    and pre: "race_pre r1"
    and fin: "finalizing r1 = finalizing r" "verdict r1 = verdict r"
    and st: "status r1 = Judging \<Longrightarrow> status r = Judging"
    and m: "\<And>run rid'. RUN_TO_RACE s' run = Some rid' \<Longrightarrow> rid' \<noteq> rid
               \<Longrightarrow> RUN_TO_RACE s run = Some rid'"
    and m2: "\<And>run. RUN_TO_RACE s' run = Some rid \<Longrightarrow> agent_run_id r1 \<noteq> None"
  shows "sys_inv s'"
proof (rule sys_invI [OF inv races _ _ _ _ m])
  let ?r2 = "fst (maybe_finalize r1)"
  show "race_inv ?r2" using pre by (rule race_inv_maybe_finalize)
  show "filter (\<lambda>t. task_race t = rid') (judge_tasks s')
          = filter (\<lambda>t. task_race t = rid') (judge_tasks s)
        \<and> live_tasks s' rid' = live_tasks s rid'
        \<and> aborted_tasks s' rid' = aborted_tasks s rid'" if "rid' \<noteq> rid" for rid'
    using that
    by (simp add: tasks live_tasks_def aborted_tasks_def count_tasks_def tasks_of_spawn
          live_tasks_spawn aborted_spawn)
  have "expected_tasks rid (Some r1) = expected_tasks rid (Some r)"
    by (rule expected_tasks_cong) (simp_all add: fin)
  with sys_inv_tasks [OF inv, of rid] r
  show "live_tasks s' rid = expected_tasks rid (Some ?r2)"
    by (simp add: tasks live_tasks_def live_tasks_spawn expected_tasks_finalize)
  show "judging_ok s' rid ?r2"
  proof (cases "snd (maybe_finalize r1)")
    case True
    then show ?thesis by (simp add: judging_ok_def maybe_finalize_status)
  next
    case False
    with sys_inv_judging [OF inv r] st show ?thesis
      by (auto simp add: judging_ok_def maybe_finalize_status fin tasks aborted_tasks_def
            count_tasks_def aborted_spawn split: if_splits)
  qed
  show "agent_run_id ?r2 \<noteq> None" if "RUN_TO_RACE s' run = Some rid" for run
    using m2 [OF that] by simp
  show "rid' \<noteq> rid" if "RUN_TO_RACE s' run = Some rid'" "rid' \<noteq> rid" for run rid'
    using that by simp
qed

lemma handle_run_event_routed:
  assumes "RUN_TO_RACE s run = Some rid" and "rid \<noteq> []" and "RACE_STATES s rid = Some r"
  shows "handle_run_event run ev now s =
     (Inr (),
      s\<lparr>RACE_STATES := (RACE_STATES s)(rid \<mapsto> fst (maybe_finalize (fst (apply_event ev now r)))),
        RUN_TO_RACE := (if snd (apply_event ev now r) then (RUN_TO_RACE s)(run := None)
                        else RUN_TO_RACE s),
        judge_tasks := spawn rid (snd (maybe_finalize (fst (apply_event ev now r)))) (judge_tasks s)\<rparr>)"
  using assms by (simp add: handle_run_event_def get_race_def split_beta)

lemma handle_run_event_dropped:
  "RUN_TO_RACE s run = None \<or> RUN_TO_RACE s run = Some [] \<Longrightarrow> handle_run_event run ev now s = (Inr (), s)"
  by (auto simp add: handle_run_event_def)

lemma handle_run_event_returns:
  assumes "sys_inv s"
  shows "fst (handle_run_event run ev now s) = Inr ()"
proof (cases "RUN_TO_RACE s run = None \<or> RUN_TO_RACE s run = Some []")
  case True
  then show ?thesis by (simp add: handle_run_event_dropped)
next
  case False
  then obtain rid where rid: "RUN_TO_RACE s run = Some rid" "rid \<noteq> []" by auto
  with sys_inv_run [OF assms] obtain r where "RACE_STATES s rid = Some r" by blast
  from handle_run_event_routed [OF rid this] show ?thesis by simp
qed

lemma sys_inv_event:
  assumes "sys_inv s" and "now \<noteq> 0"
  shows "sys_inv (snd (handle_run_event run ev now s))"
proof (cases "RUN_TO_RACE s run = None \<or> RUN_TO_RACE s run = Some []")
  case True
  with assms(1) show ?thesis by (simp add: handle_run_event_dropped)
next
  case False
  then obtain rid where rid: "RUN_TO_RACE s run = Some rid" "rid \<noteq> []" by auto
  with sys_inv_run [OF assms(1)] obtain r where r: "RACE_STATES s rid = Some r" "agent_run_id r \<noteq> None"
    by blast
  let ?r1 = "fst (apply_event ev now r)"
  let ?s' = "snd (handle_run_event run ev now s)"
  note s' = handle_run_event_routed [OF rid r(1), of ev now]
  from sys_inv_race [OF assms(1) r(1)] have "race_pre r" by (simp add: race_inv_def)
  then have pre1: "race_pre ?r1" using r(2) assms(2) by (rule race_pre_apply_event)
  show ?thesis
  proof (rule sys_inv_finalize_update [OF assms(1) r(1), where ?r1.0 = ?r1])
    show "RACE_STATES ?s' = (RACE_STATES s)(rid \<mapsto> fst (maybe_finalize ?r1))" by (simp add: s')
    show "judge_tasks ?s' = spawn rid (snd (maybe_finalize ?r1)) (judge_tasks s)" by (simp add: s')
    show "race_pre ?r1" by (rule pre1)
    show "finalizing ?r1 = finalizing r" "verdict ?r1 = verdict r" by simp_all
    show "status r = Judging" if "status ?r1 = Judging"
      using that apply_event_status [of ev now r] by auto
    show "RUN_TO_RACE s run' = Some rid'"
      if "RUN_TO_RACE ?s' run' = Some rid'" "rid' \<noteq> rid" for run' rid'
      using that by (simp add: s' split: if_splits)
    show "agent_run_id ?r1 \<noteq> None" if "RUN_TO_RACE ?s' run' = Some rid" for run'
      using r(2) by simp
  qed
qed

lemma record_human_submission_found:
  assumes "RACE_STATES s rid = Some r"
  shows "record_human_submission rid sub t1 t2 s =
     (Inr (fst (maybe_finalize (submit_effect sub t1 t2 r))),
      s\<lparr>RACE_STATES := (RACE_STATES s)(rid \<mapsto> fst (maybe_finalize (submit_effect sub t1 t2 r))),
        judge_tasks := spawn rid (snd (maybe_finalize (submit_effect sub t1 t2 r))) (judge_tasks s)\<rparr>)"
  using assms by (simp add: record_human_submission_def get_race_def split_beta)

lemma sys_inv_submission:
  assumes "sys_inv s" and "t1 \<noteq> 0" and "t2 \<noteq> 0"
  shows "sys_inv (snd (record_human_submission rid sub t1 t2 s))"
proof (cases "RACE_STATES s rid")
  case None
  with assms show ?thesis by (simp add: record_human_submission_def get_race_def)
next
  case (Some r)
  let ?r1 = "submit_effect sub t1 t2 r"
  let ?s' = "snd (record_human_submission rid sub t1 t2 s)"
  note s' = record_human_submission_found [OF Some, of sub t1 t2]
  from sys_inv_race [OF assms(1) Some] have "race_pre r" by (simp add: race_inv_def)
  then have pre1: "race_pre ?r1" using assms(2,3) by (rule race_pre_submit)
  show ?thesis
  proof (rule sys_inv_finalize_update [OF assms(1) Some, where ?r1.0 = ?r1])
    show "RACE_STATES ?s' = (RACE_STATES s)(rid \<mapsto> fst (maybe_finalize ?r1))" by (simp add: s')
    show "judge_tasks ?s' = spawn rid (snd (maybe_finalize ?r1)) (judge_tasks s)" by (simp add: s')
    show "race_pre ?r1" by (rule pre1)
    show "finalizing ?r1 = finalizing r" "verdict ?r1 = verdict r" by simp_all
    show "status r = Judging" if "status ?r1 = Judging" using that by simp
    show "RUN_TO_RACE s run' = Some rid'"
      if "RUN_TO_RACE ?s' run' = Some rid'" "rid' \<noteq> rid" for run' rid'
      using that by (simp add: s')
    show "agent_run_id ?r1 \<noteq> None" if "RUN_TO_RACE ?s' run' = Some rid" for run'
      using that sys_inv_run [OF assms(1), of run' rid] Some by (simp add: s')
  qed
qed

lemma pending_task_race:
  assumes "sys_inv s" and "i < length (judge_tasks s)"
    and "task_state (judge_tasks s ! i) = Task_pending"
  obtains r where "RACE_STATES s (task_race (judge_tasks s ! i)) = Some r" and "finalizing r"
    and "live_tasks s (task_race (judge_tasks s ! i)) = [judge_tasks s ! i]"
proof -
  let ?t = "judge_tasks s ! i"
  let ?rid = "task_race ?t"
  from assms(2,3) have "?t \<in> set (live_tasks s ?rid)" by (simp add: live_tasks_def)
  then have mem: "?t \<in> set (expected_tasks ?rid (RACE_STATES s ?rid))"
    by (simp add: sys_inv_tasks [OF assms(1)])
  then obtain r where r: "RACE_STATES s ?rid = Some r"
    by (cases "RACE_STATES s ?rid") (simp_all add: expected_tasks_def)
  from mem r assms(3) have f: "finalizing r"
    by (auto simp add: expected_tasks_def split: if_splits dest: arg_cong [where f = task_state])
  from r f have "live_tasks s ?rid = [\<lparr>task_race = ?rid, task_state = Task_pending\<rparr>]"
    by (simp add: sys_inv_tasks [OF assms(1)] expected_tasks_def)
  moreover from assms(3) have "\<lparr>task_race = ?rid, task_state = Task_pending\<rparr> = ?t"
    by (cases ?t) simp
  ultimately have "live_tasks s ?rid = [?t]" by simp
  with r f that show ?thesis by blast
qed

lemma judge_task_finishes_idle:
  "\<not> (i < length (judge_tasks s) \<and> task_state (judge_tasks s ! i) = Task_pending)
   \<Longrightarrow> judge_task_finishes i outcome s = s"
  by (auto simp add: judge_task_finishes_def)

lemma judge_task_finishes_pending:
  assumes "i < length (judge_tasks s)" and "task_state (judge_tasks s ! i) = Task_pending"
    and "RACE_STATES s (task_race (judge_tasks s ! i)) = Some r"
  shows "judge_task_finishes i outcome s =
     s\<lparr>RACE_STATES := (RACE_STATES s)(task_race (judge_tasks s ! i) \<mapsto> run_judgement outcome r),
       judge_tasks := (judge_tasks s)[i := \<lparr>task_race = task_race (judge_tasks s ! i),
                                            task_state = finished_state outcome\<rparr>]\<rparr>"
  using assms by (simp add: judge_task_finishes_def Let_def)

lemma finished_state_cases:
  "finished_state outcome = (if outcome = Cancelled then Task_aborted else Task_stored)"
  by (simp add: finished_state_def split: judge_outcome.splits)

lemma sys_inv_judged:
  assumes "sys_inv s"
  shows "sys_inv (judge_task_finishes i outcome s)"
proof (cases "i < length (judge_tasks s) \<and> task_state (judge_tasks s ! i) = Task_pending")
  case False
  with assms show ?thesis by (simp add: judge_task_finishes_idle)
next
  case True
  let ?t = "judge_tasks s ! i"
  let ?rid = "task_race ?t"
  let ?t' = "\<lparr>task_race = ?rid, task_state = finished_state outcome\<rparr>"
  from True obtain r where r: "RACE_STATES s ?rid = Some r" "finalizing r"
    and only: "live_tasks s ?rid = [?t]"
    using pending_task_race [OF assms, of i] by blast
  let ?s' = "judge_task_finishes i outcome s"
  from True r have s': "?s' = s\<lparr>RACE_STATES := (RACE_STATES s)(?rid \<mapsto> run_judgement outcome r),
      judge_tasks := (judge_tasks s)[i := ?t']\<rparr>"
    by (simp add: judge_task_finishes_pending)
  from sys_inv_race [OF assms r(1)] r(2) have v: "verdict r = None"
    by (simp add: race_inv_def race_pre_def flags_ok_def)
  show ?thesis
  proof (rule sys_invI [OF assms, where rid = ?rid and r' = "run_judgement outcome r"])
    show "RACE_STATES ?s' = (RACE_STATES s)(?rid \<mapsto> run_judgement outcome r)" by (simp add: s')
    show "race_inv (run_judgement outcome r)"
      using sys_inv_race [OF assms r(1)] r(2) by (rule race_inv_judged)
    show "filter (\<lambda>t. task_race t = rid') (judge_tasks ?s')
          = filter (\<lambda>t. task_race t = rid') (judge_tasks s)
        \<and> live_tasks ?s' rid' = live_tasks s rid'
        \<and> aborted_tasks ?s' rid' = aborted_tasks s rid'" if "rid' \<noteq> ?rid" for rid'
      using that
      by (simp add: s' live_tasks_def aborted_tasks_def count_tasks_def filter_update_other)
    show "live_tasks ?s' ?rid = expected_tasks ?rid (Some (run_judgement outcome r))"
    proof -
      from True only
      have "filter (\<lambda>t. task_race t = ?rid \<and> task_state t \<noteq> Task_aborted) ((judge_tasks s)[i := ?t'])
              = (if finished_state outcome \<noteq> Task_aborted then [?t'] else [])"
        using filter_update_single [of i "judge_tasks s"
                "\<lambda>t. task_race t = ?rid \<and> task_state t \<noteq> Task_aborted" ?t ?t']
        by (simp add: live_tasks_def)
      then show ?thesis
        using v by (simp add: s' live_tasks_def expected_tasks_def finished_state_cases judged_status)
    qed
    show "judging_ok ?s' ?rid (run_judgement outcome r)"
    proof (cases "outcome = Cancelled")
      case False
      then show ?thesis by (simp add: judging_ok_def judged_status)
    next
      case c: True
      have "1 \<le> length (filter (\<lambda>t. task_race t = ?rid \<and> task_state t = Task_aborted)
          ((judge_tasks s)[i := ?t']))"
        using True c by (intro count_update_gain) (simp_all add: finished_state_cases)
      then show ?thesis
        by (simp add: judging_ok_def s' aborted_tasks_def count_tasks_def)
    qed
    show "RUN_TO_RACE s run' = Some rid'"
      if "RUN_TO_RACE ?s' run' = Some rid'" "rid' \<noteq> ?rid" for run' rid'
      using that by (simp add: s')
    show "agent_run_id (run_judgement outcome r) \<noteq> None" if "RUN_TO_RACE ?s' run' = Some ?rid" for run'
      using that sys_inv_run [OF assms, of run' ?rid] r(1) by (simp add: s')
  qed
qed

lemma sys_inv_exec: "sys_inv s \<Longrightarrow> enabled s st \<Longrightarrow> sys_inv (exec st s)"
  by (cases st)
     (simp_all add: sys_inv_create sys_inv_register sys_inv_event sys_inv_submission
        sys_inv_started sys_inv_judged)

lemma sys_inv_run_steps: "sys_inv s \<Longrightarrow> schedule s tr \<Longrightarrow> sys_inv (run_steps tr s)"
  by (induction tr arbitrary: s) (simp_all add: sys_inv_exec)

lemma sys_inv_reachable: "schedule init_sys tr \<Longrightarrow> sys_inv (run_steps tr init_sys)"
  by (rule sys_inv_run_steps [OF sys_inv_init])

lemma races_create:
  "RACE_STATES (create_race rid' t now s) rid =
     (if rid = rid' then Some (new_race rid' t now) else RACE_STATES s rid)"
  by (simp add: create_race_def)

lemma races_register:
  "RACE_STATES (snd (register_agent_run rid' run now s)) rid =
     (case RACE_STATES s rid of
        None \<Rightarrow> None
      | Some r \<Rightarrow> if rid = rid' \<and> agent_run_id r = None then Some (register_effect run now r)
                  else Some r)"
  by (cases "RACE_STATES s rid'")
     (auto simp add: register_agent_run_def get_race_def split: option.splits)

lemma races_started:
  "RACE_STATES (snd (mark_human_started rid' now s)) rid =
     (case RACE_STATES s rid of
        None \<Rightarrow> None
      | Some r \<Rightarrow> if rid = rid' then Some (started_effect now r) else Some r)"
  by (cases "RACE_STATES s rid'")
     (auto simp add: mark_human_started_def get_race_def Let_def split: option.splits)

lemma races_submission:
  "RACE_STATES (snd (record_human_submission rid' sub t1 t2 s)) rid =
     (case RACE_STATES s rid of
        None \<Rightarrow> None
      | Some r \<Rightarrow> if rid = rid' then Some (fst (maybe_finalize (submit_effect sub t1 t2 r)))
                  else Some r)"
  by (cases "RACE_STATES s rid'")
     (auto simp add: record_human_submission_def get_race_def split_beta split: option.splits)

lemma exec_race_step:
  assumes inv: "sys_inv s" and en: "enabled s st" and r: "RACE_STATES s rid = Some r"
  shows "\<exists>r'. RACE_STATES (exec st s) rid = Some r' \<and> race_step r r'"
proof (cases st)
  case (Create_race rid' t now)
  with en r have "rid' \<noteq> rid" by auto
  with Create_race r show ?thesis by (auto simp add: races_create intro: race_step.unchanged)
next
  case (Register_agent_run rid' run now)
  with en r show ?thesis
    by (auto simp add: races_register intro: race_step.unchanged race_step.registered)
next
  case (Run_event run ev now)
  show ?thesis
  proof (cases "RUN_TO_RACE s run = None \<or> RUN_TO_RACE s run = Some []")
    case True
    with Run_event r show ?thesis
      by (auto simp add: handle_run_event_dropped intro: race_step.unchanged)
  next
    case False
    then obtain rid' where rid': "RUN_TO_RACE s run = Some rid'" "rid' \<noteq> []" by auto
    with sys_inv_run [OF inv] obtain r0 where r0: "RACE_STATES s rid' = Some r0" "agent_run_id r0 \<noteq> None"
      by blast
    note s' = handle_run_event_routed [OF rid' r0(1), of ev now]
    show ?thesis
    proof (cases "rid' = rid")
      case True
      with r r0 have "r0 = r" by simp
      with True r0 Run_event en show ?thesis
        by (auto simp add: s' intro: race_step.event)
    next
      case False
      with Run_event r show ?thesis
        by (auto simp add: s' intro: race_step.unchanged)
    qed
  qed
next
  case (Human_submission rid' sub t1 t2)
  with en r show ?thesis
    by (auto simp add: races_submission intro: race_step.unchanged race_step.submitted)
next
  case (Human_started rid' now)
  with en r show ?thesis
    by (auto simp add: races_started intro: race_step.unchanged race_step.started)
next
  case (Judge_done i outcome)
  show ?thesis
  proof (cases "i < length (judge_tasks s) \<and> task_state (judge_tasks s ! i) = Task_pending")
    case False
    with Judge_done r show ?thesis
      by (auto simp add: judge_task_finishes_idle intro: race_step.unchanged)
  next
    case True
    let ?rid = "task_race (judge_tasks s ! i)"
    from True obtain r0 where r0: "RACE_STATES s ?rid = Some r0" "finalizing r0"
      using pending_task_race [OF inv, of i] by blast
    from True r0 have s': "RACE_STATES (judge_task_finishes i outcome s)
        = (RACE_STATES s)(?rid \<mapsto> run_judgement outcome r0)"
      by (simp add: judge_task_finishes_pending)
    show ?thesis
    proof (cases "?rid = rid")
      case same: True
      with r r0 have "r0 = r" by simp
      with same r0 Judge_done show ?thesis
        by (auto simp add: s' intro: race_step.judged)
    next
      case False
      with Judge_done r show ?thesis
        by (auto simp add: s' intro: race_step.unchanged)
    qed
  qed
qed

lemma race_step_rank:
  assumes "race_step r r'" and "race_inv r"
  shows "status_rank (status r) \<le> status_rank (status r')
         \<and> (verdict r \<noteq> None \<longrightarrow> status r' = Completed \<and> verdict r' = verdict r)"
  using assms
proof (cases rule: race_step.cases)
  case unchanged
  with assms(2) show ?thesis by (simp add: race_inv_def race_pre_def flags_ok_def)
next
  case (registered now run)
  with assms(2) show ?thesis
    by (auto simp add: race_inv_def race_pre_def flags_ok_def agent_ok_def)
next
  case (event now ev)
  let ?r1 = "fst (apply_event ev now r)"
  from assms(2) have pre: "race_pre r" by (simp add: race_inv_def)
  have st1: "status ?r1 = status r \<or> (status ?r1 = Awaiting_human \<and> status r \<noteq> Judging \<and> status r \<noteq> Completed)"
    by (rule apply_event_status)
  from pre have fl: "flags_ok r" by (simp add: race_pre_def)
  from st1 fl have fl1: "verdict ?r1 = None \<longrightarrow> status ?r1 \<noteq> Completed"
    by (auto simp add: flags_ok_def)
  from st1 have le: "status_rank (status r) \<le> status_rank (status ?r1)"
    by (cases "status r") auto
  have "status_rank (status ?r1) \<le> status_rank (status (fst (maybe_finalize ?r1)))"
    using fl1 by (cases "status ?r1") (auto simp add: maybe_finalize_eq)
  with le have "status_rank (status r) \<le> status_rank (status r')" using event by simp
  moreover have "verdict r \<noteq> None \<longrightarrow> status r' = Completed \<and> verdict r' = verdict r"
    using event fl st1 by (auto simp add: maybe_finalize_eq flags_ok_def)
  ultimately show ?thesis by simp
next
  case (submitted t1 t2 sub)
  let ?r1 = "submit_effect sub t1 t2 r"
  from assms(2) have fl: "flags_ok r" by (simp add: race_inv_def race_pre_def)
  have "status_rank (status ?r1) \<le> status_rank (status (fst (maybe_finalize ?r1)))"
    using fl by (cases "status r") (auto simp add: maybe_finalize_eq flags_ok_def)
  then have "status_rank (status r) \<le> status_rank (status r')" using submitted by simp
  moreover have "verdict r \<noteq> None \<longrightarrow> status r' = Completed \<and> verdict r' = verdict r"
    using submitted fl by (auto simp add: maybe_finalize_eq flags_ok_def)
  ultimately show ?thesis by simp
next
  case (started now)
  with assms(2) show ?thesis
    by (auto simp add: started_status race_inv_def race_pre_def flags_ok_def)
next
  case (judged outcome)
  with assms(2) show ?thesis
    by (cases "status r") (auto simp add: race_inv_def race_pre_def flags_ok_def judged_status)
qed

lemma maybe_finalize_frame [simp]:
  "agent (fst (maybe_finalize r)) = agent r"
  "human (fst (maybe_finalize r)) = human r"
  "human_submission (fst (maybe_finalize r)) = human_submission r"
  "verdict (fst (maybe_finalize r)) = verdict r"
  "task (fst (maybe_finalize r)) = task r"
  by (simp_all add: maybe_finalize_eq)

lemma completed_at_apply_event:
  "completed_at (agent r) = Some c \<Longrightarrow> c \<noteq> 0
   \<Longrightarrow> completed_at (agent (fst (apply_event ev now r))) = Some c"
  by (auto simp add: apply_event_def on_status_def on_live_url_def on_result_def on_error_def
        on_complete_def or_time_def Let_def split: option.splits)

lemma times_ok_completed: "times_ok p \<Longrightarrow> completed_at p = Some c \<Longrightarrow> c \<noteq> 0"
  by (simp add: times_ok_def)

lemma race_step_keeps:
  assumes "race_step r r'" and "race_inv r"
  shows "keeps_completed_at (agent r) (agent r') \<and> keeps_completed_at (human r) (human r')"
proof -
  from assms(2) have ta: "times_ok (agent r)" and th: "times_ok (human r)"
    by (simp_all add: race_inv_def race_pre_def)
  from assms(1) show ?thesis
  proof (cases rule: race_step.cases)
    case unchanged
    then show ?thesis by (simp add: keeps_completed_at_def split: option.splits)
  next
    case (registered now run)
    then show ?thesis
      by (simp add: keeps_completed_at_def register_effect_def split: option.splits)
  next
    case (event now ev)
    then show ?thesis
      using completed_at_apply_event [of r _ ev now] times_ok_completed [OF ta]
      by (simp add: keeps_completed_at_def split: option.splits)
  next
    case (submitted t1 t2 sub)
    then show ?thesis
      using times_ok_completed [OF th]
      by (auto simp add: keeps_completed_at_def or_time_def split: option.splits)
  next
    case (started now)
    then show ?thesis
      by (simp add: keeps_completed_at_def started_effect_eq split: option.splits)
  next
    case (judged outcome)
    then show ?thesis by (simp add: keeps_completed_at_def split: option.splits)
  qed
qed

lemma times_ok_consistent: "times_ok p \<Longrightarrow> duration_consistent p"
  by (auto simp add: times_ok_def duration_consistent_def split: option.splits)

lemma map_update_same: "(map f xs)[i := f (xs ! i)] = map f xs"
  by (induction xs arbitrary: i) (simp_all split: nat.splits)

lemma task_races_exec:
  "\<exists>extra. map task_race (judge_tasks (exec st s)) = map task_race (judge_tasks s) @ extra"
proof (cases st)
  case (Create_race rid t now)
  then show ?thesis by (simp add: create_race_def)
next
  case (Register_agent_run rid run now)
  then show ?thesis
    by (simp add: register_agent_run_def get_race_def split: sum.splits option.splits)
next
  case (Run_event run ev now)
  then show ?thesis
    by (simp add: handle_run_event_def get_race_def spawn_def split_beta
        split: sum.splits option.splits)
next
  case (Human_submission rid sub t1 t2)
  then show ?thesis
    by (simp add: record_human_submission_def get_race_def spawn_def split_beta
        split: sum.splits option.splits)
next
  case (Human_started rid now)
  then show ?thesis
    by (simp add: mark_human_started_def get_race_def Let_def split: sum.splits option.splits)
next
  case (Judge_done i outcome)
  then show ?thesis
    by (simp add: judge_task_finishes_def Let_def map_update map_update_same
        split: option.splits)
qed

lemma invocations_map:
  "judge_invocations s rid = length (filter (\<lambda>x. x = rid) (map task_race (judge_tasks s)))"
  by (simp add: judge_invocations_def tasks_of_def filter_map comp_def)

lemma invocations_exec: "judge_invocations s rid \<le> judge_invocations (exec st s) rid"
proof -
  from task_races_exec [of st s] obtain extra where
    e: "map task_race (judge_tasks (exec st s)) = map task_race (judge_tasks s) @ extra"
    by blast
  show ?thesis unfolding invocations_map e by simp
qed

lemma put_all_length [simp]: "length (put_all ls ev qs) = length qs"
  by (simp add: put_all_def)

lemma put_all_nth:
  "i < length qs \<Longrightarrow> put_all ls ev qs ! i = (if i \<in> ls then qs ! i @ [ev] else qs ! i)"
  by (simp add: put_all_def)

lemma replayed_subscribe: "replayed (fst (subscribe rs)) (snd (subscribe rs))"
  by (simp add: replayed_def subscribe_def Let_def)

lemma replayed_dispatch:
  assumes "replayed l rs"
  shows "replayed l (fst (dispatch_one now (rs, s)))"
proof (cases "dispatch_done rs")
  case True
  with assms show ?thesis by (simp add: dispatch_one_def)
next
  case False
  with assms have l: "l < length (listener_queues rs)" "listener_queues rs ! l = buffer rs"
    "l \<in> listeners rs"
    by (auto simp add: replayed_def)
  show ?thesis
  proof (cases "queue rs")
    case Nil
    with False assms show ?thesis by (simp add: dispatch_one_def)
  next
    case (Cons ev q)
    with False l show ?thesis
      by (simp add: dispatch_one_def Let_def replayed_def put_all_nth split: sum.splits)
  qed
qed

lemma buffer_dispatch: "\<exists>live. buffer (fst (dispatch_one now (rs, s))) = buffer rs @ live"
  by (simp add: dispatch_one_def Let_def split: list.splits sum.splits)

lemma replayed_op:
  assumes "replayed l rs" and "op \<noteq> Unsubscribe l"
  shows "replayed l (fst (run_op_exec op (rs, s)))"
proof (cases op)
  case (Put ev)
  with assms show ?thesis by (simp add: replayed_def)
next
  case (Dispatch now)
  with assms show ?thesis by (simp add: replayed_dispatch)
next
  case Subscribe
  with assms show ?thesis by (auto simp add: replayed_def subscribe_def Let_def nth_append)
next
  case (Unsubscribe l')
  with assms show ?thesis by (auto simp add: replayed_def unsubscribe_def)
next
  case Cancel_dispatch
  with assms show ?thesis by (simp add: replayed_def)
next
  case (Manager st)
  with assms show ?thesis by simp
qed

lemma buffer_op: "\<exists>live. buffer (fst (run_op_exec op (rs, s))) = buffer rs @ live"
  by (cases op) (simp_all add: buffer_dispatch subscribe_def unsubscribe_def Let_def)

lemma replayed_ops:
  "replayed l (fst x) \<Longrightarrow> Unsubscribe l \<notin> set ops
   \<Longrightarrow> replayed l (fst (run_ops ops x))
       \<and> (\<exists>live. buffer (fst (run_ops ops x)) = buffer (fst x) @ live)"
proof (induction ops arbitrary: x)
  case Nil
  then show ?case by simp
next
  case (Cons op ops)
  obtain rs s where x: "x = (rs, s)" by (cases x)
  from Cons.prems x have "replayed l (fst (run_op_exec op x))"
    by (auto intro: replayed_op)
  with Cons.IH [of "run_op_exec op x"] Cons.prems
  have ih: "replayed l (fst (run_ops ops (run_op_exec op x)))"
    and "\<exists>live. buffer (fst (run_ops ops (run_op_exec op x))) = buffer (fst (run_op_exec op x)) @ live"
    by simp_all
  then obtain live where
    live: "buffer (fst (run_ops ops (run_op_exec op x))) = buffer (fst (run_op_exec op x)) @ live"
    by blast
  from buffer_op [of op rs s] x obtain live0 where
    "buffer (fst (run_op_exec op x)) = buffer (fst x) @ live0" by auto
  with live have "buffer (fst (run_ops ops (run_op_exec op x))) = buffer (fst x) @ (live0 @ live)"
    by simp
  with ih show ?case by auto
qed

lemma filter_state_split:
  "length (filter (\<lambda>t. task_race t = rid) ts) =
     length (filter (\<lambda>t. task_race t = rid \<and> task_state t = Task_aborted) ts)
     + length (filter (\<lambda>t. task_race t = rid \<and> task_state t = Task_pending) ts)
     + length (filter (\<lambda>t. task_race t = rid \<and> task_state t = Task_stored) ts)"
proof (induction ts)
  case Nil
  then show ?case by simp
next
  case (Cons t ts)
  then show ?case by (cases "task_state t") simp_all
qed

lemma invocations_split:
  "judge_invocations s rid = aborted_tasks s rid + pending_tasks s rid + verdict_stores s rid"
  by (simp add: judge_invocations_def tasks_of_def aborted_tasks_def pending_tasks_def
        verdict_stores_def count_tasks_def filter_state_split [of rid "judge_tasks s"])

lemma count_live:
  "st \<noteq> Task_aborted
   \<Longrightarrow> count_tasks s rid st = length (filter (\<lambda>t. task_state t = st) (live_tasks s rid))"
  by (auto simp add: count_tasks_def live_tasks_def intro!: arg_cong [where f = length] filter_cong)

lemma counts_of_race:
  assumes "sys_inv s" and "RACE_STATES s rid = Some r"
  shows "pending_tasks s rid = (if finalizing r then 1 else 0)"
    and "verdict_stores s rid = (if verdict r \<noteq> None then 1 else 0)"
proof -
  from sys_inv_race [OF assms] have "flags_ok r" by (simp add: race_inv_def race_pre_def)
  then have fv: "finalizing r \<longrightarrow> verdict r = None" by (simp add: flags_ok_def)
  from sys_inv_tasks [OF assms(1), of rid] assms(2)
  have l: "live_tasks s rid = expected_tasks rid (Some r)" by simp
  show "pending_tasks s rid = (if finalizing r then 1 else 0)"
    by (simp add: pending_tasks_def count_live l expected_tasks_def)
  from fv show "verdict_stores s rid = (if verdict r \<noteq> None then 1 else 0)"
    by (auto simp add: verdict_stores_def count_live l expected_tasks_def)
qed

lemma counts_no_race:
  assumes "sys_inv s" and "RACE_STATES s rid = None"
  shows "judge_invocations s rid = 0" and "pending_tasks s rid = 0" and "verdict_stores s rid = 0"
    and "aborted_tasks s rid = 0"
proof -
  from sys_inv_no_race [OF assms] show z: "judge_invocations s rid = 0"
    by (simp add: judge_invocations_def)
  with invocations_split [of s rid]
  show "pending_tasks s rid = 0" and "verdict_stores s rid = 0" and "aborted_tasks s rid = 0"
    by simp_all
qed

lemma counts_bounded:
  assumes "sys_inv s"
  shows "pending_tasks s rid \<le> 1" and "verdict_stores s rid \<le> 1"
proof -
  show "pending_tasks s rid \<le> 1"
    by (cases "RACE_STATES s rid")
       (simp_all add: counts_no_race [OF assms] counts_of_race [OF assms])
  show "verdict_stores s rid \<le> 1"
    by (cases "RACE_STATES s rid")
       (simp_all add: counts_no_race [OF assms] counts_of_race [OF assms])
qed

lemma invocations_spawn:
  "length (filter (\<lambda>t. task_race t = rid) (spawn rid' created ts)) =
     length (filter (\<lambda>t. task_race t = rid) ts) + (if created \<and> rid = rid' then 1 else 0)"
  by (simp add: spawn_def)

lemma maybe_finalize_created:
  "snd (maybe_finalize r) \<Longrightarrow> verdict r = None \<and> \<not> finalizing r"
  by (simp add: maybe_finalize_eq split: if_splits)

lemma spawn_guarded:
  assumes inv: "sys_inv s" and r: "RACE_STATES s rid' = Some r"
    and fin: "finalizing r1 = finalizing r" "verdict r1 = verdict r"
    and tasks: "judge_tasks s' = spawn rid' (snd (maybe_finalize r1)) (judge_tasks s)"
  shows "judge_invocations s' rid = judge_invocations s rid
     \<or> (judge_invocations s' rid = judge_invocations s rid + 1
         \<and> pending_tasks s rid = 0 \<and> verdict_stores s rid = 0)"
proof (cases "snd (maybe_finalize r1) \<and> rid = rid'")
  case False
  then show ?thesis
    by (auto simp add: judge_invocations_def tasks_of_def tasks invocations_spawn)
next
  case True
  with maybe_finalize_created [of r1] fin have "verdict r = None" "\<not> finalizing r" by simp_all
  with counts_of_race [OF inv r] True have "pending_tasks s rid = 0" "verdict_stores s rid = 0"
    by simp_all
  with True show ?thesis
    by (simp add: judge_invocations_def tasks_of_def tasks invocations_spawn)
qed

lemma exec_invocations:
  assumes inv: "sys_inv s" and en: "enabled s st"
  shows "judge_invocations (exec st s) rid = judge_invocations s rid
     \<or> (judge_invocations (exec st s) rid = judge_invocations s rid + 1
         \<and> pending_tasks s rid = 0 \<and> verdict_stores s rid = 0)"
proof (cases st)
  case (Create_race rid' t now)
  then show ?thesis by (simp add: create_race_def judge_invocations_def tasks_of_def)
next
  case (Register_agent_run rid' run now)
  then show ?thesis
    by (simp add: register_agent_run_def get_race_def judge_invocations_def tasks_of_def
          split: option.splits)
next
  case (Run_event run ev now)
  show ?thesis
  proof (cases "RUN_TO_RACE s run = None \<or> RUN_TO_RACE s run = Some []")
    case True
    with Run_event show ?thesis by (simp add: handle_run_event_dropped)
  next
    case False
    then obtain rid' where rid': "RUN_TO_RACE s run = Some rid'" "rid' \<noteq> []" by auto
    with sys_inv_run [OF inv] obtain r where r: "RACE_STATES s rid' = Some r" by blast
    note s' = handle_run_event_routed [OF rid' r, of ev now]
    have "judge_invocations (snd (handle_run_event run ev now s)) rid = judge_invocations s rid
     \<or> (judge_invocations (snd (handle_run_event run ev now s)) rid = judge_invocations s rid + 1
         \<and> pending_tasks s rid = 0 \<and> verdict_stores s rid = 0)"
      by (rule spawn_guarded [OF inv r, where ?r1.0 = "fst (apply_event ev now r)"])
         (simp_all add: s')
    with Run_event show ?thesis by simp
  qed
next
  case (Human_submission rid' sub t1 t2)
  show ?thesis
  proof (cases "RACE_STATES s rid'")
    case None
    with Human_submission show ?thesis
      by (simp add: record_human_submission_def get_race_def)
  next
    case (Some r)
    note s' = record_human_submission_found [OF Some, of sub t1 t2]
    have "judge_invocations (snd (record_human_submission rid' sub t1 t2 s)) rid
            = judge_invocations s rid
     \<or> (judge_invocations (snd (record_human_submission rid' sub t1 t2 s)) rid
            = judge_invocations s rid + 1
         \<and> pending_tasks s rid = 0 \<and> verdict_stores s rid = 0)"
      by (rule spawn_guarded [OF inv Some, where ?r1.0 = "submit_effect sub t1 t2 r"])
         (simp_all add: s')
    with Human_submission show ?thesis by simp
  qed
next
  case (Human_started rid' now)
  then show ?thesis
    by (simp add: mark_human_started_def get_race_def Let_def judge_invocations_def tasks_of_def
          split: option.splits)
next
  case (Judge_done i outcome)
  then have "map task_race (judge_tasks (exec st s)) = map task_race (judge_tasks s)"
    by (simp add: judge_task_finishes_def Let_def map_update map_update_same split: option.splits)
  then show ?thesis by (simp add: invocations_map)
qed

lemma emitted_append: "emitted (ops @ ops') = emitted ops @ emitted ops'"
  by (induction ops rule: emitted.induct) simp_all

lemma dispatch_one_delivers:
  assumes "sys_inv s" and "\<not> dispatch_done rs" and "queue rs = ev # q"
  shows "fst (dispatch_one now (rs, s)) =
           rs\<lparr>queue := q, buffer := buffer rs @ [ev],
              dispatch_done := (ev ''type'' = Some ''complete''),
              listener_queues := put_all (listeners rs) ev (listener_queues rs)\<rparr>"
  using assms handle_run_event_returns [OF assms(1), of "run_id rs" ev now]
  by (simp add: dispatch_one_def Let_def split: option.splits)

lemma dispatch_one_sys:
  assumes "sys_inv s" and "now \<noteq> 0"
  shows "sys_inv (snd (dispatch_one now (rs, s)))"
  using assms sys_inv_event [OF assms, of "run_id rs"]
  by (simp add: dispatch_one_def Let_def split: list.splits option.splits sum.splits)

lemma stream_dispatch:
  assumes "sys_inv s"
  shows "buffer (fst (dispatch_one now (rs, s))) @ queue (fst (dispatch_one now (rs, s)))
           = buffer rs @ queue rs"
proof (cases "dispatch_done rs")
  case True
  then show ?thesis by (simp add: dispatch_one_def)
next
  case False
  show ?thesis
  proof (cases "queue rs")
    case Nil
    with False show ?thesis by (simp add: dispatch_one_def)
  next
    case (Cons ev q)
    from dispatch_one_delivers [OF assms False Cons] Cons show ?thesis by simp
  qed
qed

lemma stream_op:
  assumes "sys_inv s" and "run_enabled (rs, s) op"
  shows "sys_inv (snd (run_op_exec op (rs, s)))
     \<and> buffer (fst (run_op_exec op (rs, s))) @ queue (fst (run_op_exec op (rs, s)))
         = buffer rs @ queue rs @ emitted [op]"
proof (cases op)
  case (Put ev)
  with assms show ?thesis by simp
next
  case (Dispatch now)
  with assms show ?thesis by (simp add: dispatch_one_sys stream_dispatch)
next
  case Subscribe
  with assms show ?thesis by (simp add: subscribe_def Let_def)
next
  case (Unsubscribe l)
  with assms show ?thesis by (simp add: unsubscribe_def)
next
  case Cancel_dispatch
  with assms show ?thesis by simp
next
  case (Manager st)
  with assms show ?thesis by (simp add: sys_inv_exec)
qed

lemma stream_ops:
  "sys_inv (snd x) \<Longrightarrow> run_schedule x ops
   \<Longrightarrow> sys_inv (snd (run_ops ops x))
      \<and> buffer (fst (run_ops ops x)) @ queue (fst (run_ops ops x))
          = buffer (fst x) @ queue (fst x) @ emitted ops"
proof (induction ops arbitrary: x)
  case Nil
  then show ?case by simp
next
  case (Cons op ops)
  obtain rs s where x: "x = (rs, s)" by (cases x)
  from Cons.prems x have en: "run_enabled (rs, s) op" and rest: "run_schedule (run_op_exec op x) ops"
    and inv: "sys_inv s"
    by simp_all
  from stream_op [OF inv en] x
  have a: "sys_inv (snd (run_op_exec op x))"
    and b: "buffer (fst (run_op_exec op x)) @ queue (fst (run_op_exec op x))
         = buffer (fst x) @ queue (fst x) @ emitted [op]"
    by simp_all
  have e: "emitted (op # ops) = emitted [op] @ emitted ops"
    using emitted_append [of "[op]" ops] by simp
  from Cons.IH [OF a rest] b show ?case by (simp add: e)
qed

section \<open>Properties of the race manager\<close>

lemmas op_defs =
  create_race_def register_agent_run_def get_race_def register_effect_def handle_run_event_def
  apply_event_def on_status_def on_live_url_def on_result_def on_error_def on_complete_def
  maybe_finalize_def agent_ready_def human_ready_def record_human_submission_def
  submit_effect_def mark_human_started_def started_effect_def judge_task_finishes_def
  run_judgement_def spawn_def or_time_def or_empty_def new_race_def pending_participant_def
  init_sys_def Let_def

lemmas sample_defs =
  sample_task_def ev_status_def ev_result_def ev_error_def ev_complete_def sample_verdict_def
  sample_race_def sample_judged_def

lemma rank_run:
  "sys_inv s \<Longrightarrow> schedule s tr \<Longrightarrow> RACE_STATES s rid = Some r
   \<Longrightarrow> \<exists>r'. RACE_STATES (run_steps tr s) rid = Some r'
          \<and> status_rank (status r) \<le> status_rank (status r')
          \<and> (verdict r \<noteq> None \<longrightarrow> status r' = Completed \<and> verdict r' = verdict r)"
proof (induction tr arbitrary: s r)
  case Nil
  then show ?case
    using sys_inv_race [OF Nil(1) Nil(3)] by (simp add: race_inv_def race_pre_def flags_ok_def)
next
  case (Cons st tr)
  from Cons.prems have en: "enabled s st" and rest: "schedule (exec st s) tr" by simp_all
  from exec_race_step [OF Cons.prems(1) en Cons.prems(3)] obtain r1 where
    r1: "RACE_STATES (exec st s) rid = Some r1" "race_step r r1" by blast
  from race_step_rank [OF r1(2) sys_inv_race [OF Cons.prems(1,3)]]
  have a: "status_rank (status r) \<le> status_rank (status r1)"
    and b: "verdict r \<noteq> None \<longrightarrow> status r1 = Completed \<and> verdict r1 = verdict r"
    by simp_all
  from Cons.IH [OF sys_inv_exec [OF Cons.prems(1) en] rest r1(1)] obtain r' where
    r': "RACE_STATES (run_steps tr (exec st s)) rid = Some r'"
      "status_rank (status r1) \<le> status_rank (status r')"
      "verdict r1 \<noteq> None \<longrightarrow> status r' = Completed \<and> verdict r' = verdict r1"
    by blast
  with a b show ?case by auto
qed

lemma keeps_completed_at_trans:
  "keeps_completed_at p q \<Longrightarrow> keeps_completed_at q r \<Longrightarrow> keeps_completed_at p r"
  by (auto simp add: keeps_completed_at_def split: option.splits)

lemma keeps_run:
  "sys_inv s \<Longrightarrow> schedule s tr \<Longrightarrow> RACE_STATES s rid = Some r
   \<Longrightarrow> \<exists>r'. RACE_STATES (run_steps tr s) rid = Some r'
          \<and> keeps_completed_at (agent r) (agent r') \<and> keeps_completed_at (human r) (human r')"
proof (induction tr arbitrary: s r)
  case Nil
  then show ?case by (simp add: keeps_completed_at_def split: option.splits)
next
  case (Cons st tr)
  from Cons.prems have en: "enabled s st" and rest: "schedule (exec st s) tr" by simp_all
  from exec_race_step [OF Cons.prems(1) en Cons.prems(3)] obtain r1 where
    r1: "RACE_STATES (exec st s) rid = Some r1" "race_step r r1" by blast
  note k1 = race_step_keeps [OF r1(2) sys_inv_race [OF Cons.prems(1,3)]]
  from Cons.IH [OF sys_inv_exec [OF Cons.prems(1) en] rest r1(1)] obtain r' where
    r': "RACE_STATES (run_steps tr (exec st s)) rid = Some r'"
      "keeps_completed_at (agent r1) (agent r')" "keeps_completed_at (human r1) (human r')"
    by blast
  with k1 show ?case by (auto intro: keeps_completed_at_trans)
qed

text \<open>
  C1 (as the code has it). Under every schedule (every interleaving of race creations, run
  registrations, agent events, human starts and submissions, and ends of judgement tasks,
  each of which returns a verdict, raises, or is cancelled at its \<open>await\<close>), for every race:
  at most one judgement task has stored a verdict, at most one is pending, and never both;
  every judgement task ever created is pending, has stored the verdict, or ended without
  one; no step removes an invocation, an enabled step starts at most one, and it starts
  one only when no judgement task of the race is pending and none has stored a verdict
  (the guard of \<open>_maybe_finalize\<close>); a task is pending exactly when the race is
  \<open>finalizing\<close> and a verdict has been stored exactly when the race has one; judgement has
  been triggered at least once as soon as an operation ends with both sides ready (the
  agent has a result or the status error, the human has submitted); and it has been
  triggered at most once as long as no judgement task ended without storing a verdict.
\<close>

theorem judgement_triggered_once:
  assumes "schedule init_sys tr"
  shows "verdict_stores (run_steps tr init_sys) rid \<le> 1
     \<and> pending_tasks (run_steps tr init_sys) rid \<le> 1
     \<and> pending_tasks (run_steps tr init_sys) rid + verdict_stores (run_steps tr init_sys) rid \<le> 1
     \<and> judge_invocations (run_steps tr init_sys) rid
         = aborted_tasks (run_steps tr init_sys) rid + pending_tasks (run_steps tr init_sys) rid
           + verdict_stores (run_steps tr init_sys) rid
     \<and> (aborted_tasks (run_steps tr init_sys) rid = 0
          \<longrightarrow> judge_invocations (run_steps tr init_sys) rid \<le> 1)
     \<and> (\<forall>st. judge_invocations (run_steps tr init_sys) rid
              \<le> judge_invocations (exec st (run_steps tr init_sys)) rid)
     \<and> (\<forall>st. enabled (run_steps tr init_sys) st \<longrightarrow>
            judge_invocations (exec st (run_steps tr init_sys)) rid
              \<le> judge_invocations (run_steps tr init_sys) rid + 1
            \<and> (judge_invocations (run_steps tr init_sys) rid
                  < judge_invocations (exec st (run_steps tr init_sys)) rid
                \<longrightarrow> pending_tasks (run_steps tr init_sys) rid = 0
                    \<and> verdict_stores (run_steps tr init_sys) rid = 0))
     \<and> (\<forall>race. RACE_STATES (run_steps tr init_sys) rid = Some race \<longrightarrow>
            (pending_tasks (run_steps tr init_sys) rid = 1) = finalizing race
          \<and> (verdict_stores (run_steps tr init_sys) rid = 1) = (verdict race \<noteq> None)
          \<and> (agent_ready race \<and> human_ready race
               \<longrightarrow> 1 \<le> judge_invocations (run_steps tr init_sys) rid))"
proof -
  let ?s = "run_steps tr init_sys"
  from assms have inv: "sys_inv ?s" by (rule sys_inv_reachable)
  note split = invocations_split [of ?s rid]
  have both: "pending_tasks ?s rid + verdict_stores ?s rid \<le> 1"
  proof (cases "RACE_STATES ?s rid")
    case None
    then show ?thesis by (simp add: counts_no_race [OF inv])
  next
    case (Some r)
    from sys_inv_race [OF inv Some] have "flags_ok r" by (simp add: race_inv_def race_pre_def)
    then have "finalizing r \<longrightarrow> verdict r = None" by (simp add: flags_ok_def)
    then show ?thesis by (auto simp add: counts_of_race [OF inv Some])
  qed
  have steps: "judge_invocations (exec st ?s) rid \<le> judge_invocations ?s rid + 1
            \<and> (judge_invocations ?s rid < judge_invocations (exec st ?s) rid
                \<longrightarrow> pending_tasks ?s rid = 0 \<and> verdict_stores ?s rid = 0)"
    if en: "enabled ?s st" for st
    using exec_invocations [OF inv en, of rid] by auto
  have races: "(pending_tasks ?s rid = 1) = finalizing race
          \<and> (verdict_stores ?s rid = 1) = (verdict race \<noteq> None)
          \<and> (agent_ready race \<and> human_ready race \<longrightarrow> 1 \<le> judge_invocations ?s rid)"
    if r: "RACE_STATES ?s rid = Some race" for race
  proof -
    from sys_inv_race [OF inv r] have trg: "triggered race"
      by (simp add: race_inv_def)
    note jo = sys_inv_judging [OF inv r]
    have "1 \<le> judge_invocations ?s rid" if "agent_ready race" "human_ready race"
    proof -
      from trg that have "finalizing race \<or> verdict race \<noteq> None \<or> status race = Judging"
        by (simp add: triggered_def)
      with jo have "finalizing race \<or> verdict race \<noteq> None \<or> 1 \<le> aborted_tasks ?s rid"
        by (auto simp add: judging_ok_def)
      with split show ?thesis by (auto simp add: counts_of_race [OF inv r])
    qed
    then show ?thesis by (simp add: counts_of_race [OF inv r])
  qed
  from both split have once: "aborted_tasks ?s rid = 0 \<longrightarrow> judge_invocations ?s rid \<le> 1"
    by simp
  from both have one: "verdict_stores ?s rid \<le> 1" "pending_tasks ?s rid \<le> 1" by simp_all
  show ?thesis
    apply (intro conjI allI impI)
    using one both split once steps races invocations_exec [of ?s rid]
    by blast+
qed

theorem judgement_triggered_once_witness:
  "schedule init_sys sample_judged
   \<and> enabled (run_steps sample_judged init_sys) (Human_submission ''r1'' (Some ''Other'') 200 201)
   \<and> judge_invocations (run_steps sample_judged init_sys) ''r1'' = 1
   \<and> verdict_stores (run_steps sample_judged init_sys) ''r1'' = 1
   \<and> pending_tasks (run_steps sample_judged init_sys) ''r1'' = 0
   \<and> aborted_tasks (run_steps sample_judged init_sys) ''r1'' = 0
   \<and> judge_invocations (exec (Human_submission ''r1'' (Some ''Other'') 200 201)
        (run_steps sample_judged init_sys)) ''r1'' = 1
   \<and> judge_invocations (run_steps sample_race init_sys) ''r1'' = 1
   \<and> pending_tasks (run_steps sample_race init_sys) ''r1'' = 1"
proof -
  have s: "schedule init_sys sample_judged" by (simp add: sample_defs op_defs)
  from judgement_triggered_once [OF s, of "''r1''"] s show ?thesis
    by (simp add: sample_defs op_defs judge_invocations_def verdict_stores_def pending_tasks_def
          aborted_tasks_def count_tasks_def tasks_of_def finished_state_def)
qed

text \<open>
  C1 as stated fails on both sides of \<open>exactly once\<close>. When the agent's \<open>complete\<close> event
  arrives with no result and no error status, the agent is not ready; both the \<open>complete\<close>
  event and the human's submission call \<open>_maybe_finalize\<close>, and no judgement task is
  created. And when a judgement task is cancelled at its \<open>await\<close>, \<open>finally\<close> clears
  \<open>finalizing\<close> with no verdict stored, so the guard lets the next call through: a further
  submission starts a second invocation of the judge for the same race.
\<close>

theorem complete_without_result_not_judged:
  "schedule init_sys unready_agent
   \<and> judge_invocations (run_steps unready_agent init_sys) ''r1'' = 0
   \<and> map_option (pstatus \<circ> agent) (RACE_STATES (run_steps unready_agent init_sys) ''r1'')
       = Some ''completed''
   \<and> map_option (pstatus \<circ> human) (RACE_STATES (run_steps unready_agent init_sys) ''r1'')
       = Some ''completed''
   \<and> map_option verdict (RACE_STATES (run_steps unready_agent init_sys) ''r1'') = Some None
   \<and> map_option status (RACE_STATES (run_steps unready_agent init_sys) ''r1'')
       = Some Awaiting_human
   \<and> schedule init_sys (sample_cancelled @ [Human_submission ''r1'' (Some ''Other'') 200 201,
         Judge_done 1 (Returned sample_verdict)])
   \<and> judge_invocations (run_steps sample_cancelled init_sys) ''r1'' = 1
   \<and> judge_invocations (run_steps (sample_cancelled
         @ [Human_submission ''r1'' (Some ''Other'') 200 201,
            Judge_done 1 (Returned sample_verdict)]) init_sys) ''r1'' = 2
   \<and> verdict_stores (run_steps (sample_cancelled
         @ [Human_submission ''r1'' (Some ''Other'') 200 201,
            Judge_done 1 (Returned sample_verdict)]) init_sys) ''r1'' = 1"
  by (simp add: sample_defs unready_agent_def sample_cancelled_def op_defs judge_invocations_def
        verdict_stores_def count_tasks_def tasks_of_def finished_state_def)

text \<open>
  C2. From every reachable state and under every further schedule, the status of a race
  never moves backwards in the order ready, running, awaiting_human, judging, completed;
  and once the verdict is set, the status is completed and the verdict and the status stay
  as they are.
\<close>

theorem status_never_regresses:
  assumes "schedule init_sys tr" and "schedule (run_steps tr init_sys) tr'"
  shows "\<forall>race. RACE_STATES (run_steps tr init_sys) rid = Some race \<longrightarrow>
           (\<exists>race'. RACE_STATES (run_steps tr' (run_steps tr init_sys)) rid = Some race'
              \<and> status_rank (status race) \<le> status_rank (status race')
              \<and> (verdict race \<noteq> None \<longrightarrow>
                   status race = Completed \<and> status race' = Completed
                   \<and> verdict race' = verdict race))"
proof (intro allI impI)
  fix race
  assume r: "RACE_STATES (run_steps tr init_sys) rid = Some race"
  from assms(1) have inv: "sys_inv (run_steps tr init_sys)" by (rule sys_inv_reachable)
  from sys_inv_race [OF inv r] have "verdict race \<noteq> None \<longrightarrow> status race = Completed"
    by (simp add: race_inv_def race_pre_def flags_ok_def)
  with rank_run [OF inv assms(2) r]
  show "\<exists>race'. RACE_STATES (run_steps tr' (run_steps tr init_sys)) rid = Some race'
              \<and> status_rank (status race) \<le> status_rank (status race')
              \<and> (verdict race \<noteq> None \<longrightarrow>
                   status race = Completed \<and> status race' = Completed
                   \<and> verdict race' = verdict race)"
    by auto
qed

theorem status_never_regresses_witness:
  "schedule init_sys sample_race
   \<and> schedule (run_steps sample_race init_sys)
        [Judge_done 0 (Returned sample_verdict), Run_event ''a1'' ev_complete 120,
         Human_submission ''r1'' (Some ''again'') 121 122]
   \<and> map_option status (RACE_STATES (run_steps sample_race init_sys) ''r1'') = Some Judging
   \<and> map_option status
        (RACE_STATES (run_steps [Judge_done 0 (Returned sample_verdict),
             Run_event ''a1'' ev_complete 120,
             Human_submission ''r1'' (Some ''again'') 121 122]
           (run_steps sample_race init_sys)) ''r1'') = Some Completed"
proof -
  have a: "schedule init_sys sample_race" by (simp add: sample_defs op_defs)
  have b: "schedule (run_steps sample_race init_sys)
        [Judge_done 0 (Returned sample_verdict), Run_event ''a1'' ev_complete 120,
         Human_submission ''r1'' (Some ''again'') 121 122]"
    by (simp add: sample_defs op_defs)
  from status_never_regresses [OF a b, of "''r1''"] a b show ?thesis
    by (simp add: sample_defs op_defs)
qed

text \<open>
  C3 (the code departs from the claim). The \<open>complete\<close> branch assigns the agent status
  \<open>completed\<close> whatever it was. In the run of a failing agent the status \<open>error\<close> set by
  the \<open>error\<close> event is replaced by the \<open>complete\<close> event that follows it; a human
  submission after that finds the agent not ready, no judgement task is created and the
  race stays at awaiting_human.
\<close>

theorem complete_event_overwrites_error:
  "pstatus (agent (on_complete now race)) = ''completed''
   \<and> map_option (pstatus \<circ> agent) (RACE_STATES (run_steps failed_agent init_sys) ''r1'')
       = Some ''error''
   \<and> map_option (pstatus \<circ> agent)
       (RACE_STATES (snd (handle_run_event ''a1'' ev_complete 104
          (run_steps failed_agent init_sys))) ''r1'') = Some ''completed''
   \<and> map_option status
       (RACE_STATES (run_steps (failed_agent @ [Run_event ''a1'' ev_complete 104,
           Human_submission ''r1'' None 105 106]) init_sys) ''r1'') = Some Awaiting_human
   \<and> judge_tasks (run_steps (failed_agent @ [Run_event ''a1'' ev_complete 104,
           Human_submission ''r1'' None 105 106]) init_sys) = []"
  by (simp add: sample_defs failed_agent_def op_defs split: option.splits)

text \<open>
  C4. In every reachable state, for the agent and for the human of every race, the duration
  is set exactly when both timestamps are set and is then completed-at minus started-at;
  and a completed-at timestamp, once set, has the same value after every further schedule.
\<close>

theorem duration_iff_both_timestamps:
  assumes "schedule init_sys tr"
  shows "\<forall>race. RACE_STATES (run_steps tr init_sys) rid = Some race \<longrightarrow>
           duration_consistent (agent race) \<and> duration_consistent (human race)
           \<and> (\<forall>tr'. schedule (run_steps tr init_sys) tr' \<longrightarrow>
                (\<exists>race'. RACE_STATES (run_steps tr' (run_steps tr init_sys)) rid = Some race'
                   \<and> keeps_completed_at (agent race) (agent race')
                   \<and> keeps_completed_at (human race) (human race')))"
proof (intro allI impI conjI)
  fix race
  assume r: "RACE_STATES (run_steps tr init_sys) rid = Some race"
  from assms have inv: "sys_inv (run_steps tr init_sys)" by (rule sys_inv_reachable)
  from sys_inv_race [OF inv r] show "duration_consistent (agent race)"
    by (simp add: race_inv_def race_pre_def times_ok_consistent)
  from sys_inv_race [OF inv r] show "duration_consistent (human race)"
    by (simp add: race_inv_def race_pre_def times_ok_consistent)
  fix tr'
  assume "schedule (run_steps tr init_sys) tr'"
  from keeps_run [OF inv this r]
  show "\<exists>race'. RACE_STATES (run_steps tr' (run_steps tr init_sys)) rid = Some race'
          \<and> keeps_completed_at (agent race) (agent race')
          \<and> keeps_completed_at (human race) (human race')" .
qed

theorem duration_iff_both_timestamps_witness:
  "schedule init_sys sample_race
   \<and> map_option (duration_seconds \<circ> agent) (RACE_STATES (run_steps sample_race init_sys) ''r1'')
       = Some (Some 9)
   \<and> map_option (duration_seconds \<circ> human) (RACE_STATES (run_steps sample_race init_sys) ''r1'')
       = Some (Some 10)
   \<and> map_option (completed_at \<circ> agent)
       (RACE_STATES (run_steps [Run_event ''a1'' (ev_result ''late'') 150]
          (run_steps sample_race init_sys)) ''r1'') = Some (Some 110)"
proof -
  have a: "schedule init_sys sample_race" by (simp add: sample_defs op_defs)
  from duration_iff_both_timestamps [OF a, of "''r1''"] a show ?thesis
    by (simp add: sample_defs op_defs)
qed

text \<open>
  C5. When the judge raises, the judgement task stores the synthetic verdict (winner
  \<open>tie\<close>, both scores \<open>0.0\<close>, reasoning \<open>"Judging failed: "\<close> followed by the text of the
  failure) and sets the race to completed; when the judge returns, the task stores its
  verdict and sets the race to completed; and on every exit of the task (the judge
  returned, the judge raised, the task was cancelled at its \<open>await\<close>) \<open>finalizing\<close> is
  cleared. Cancellation is not a failure of the judge: on that exit the task changes
  nothing but \<open>finalizing\<close>.
\<close>

theorem judge_failure_absorbed:
  "verdict (run_judgement (Raised exc) race) =
      Some \<lparr>winner = ''tie'', reasoning = JStr (''Judging failed: '' @ exc),
            agent_score = 0, human_score = 0\<rparr>
   \<and> status (run_judgement (Raised exc) race) = Completed
   \<and> verdict (run_judgement (Returned v) race) = Some v
   \<and> status (run_judgement (Returned v) race) = Completed
   \<and> finalizing (run_judgement outcome race) = False
   \<and> run_judgement Cancelled race = race\<lparr>finalizing := False\<rparr>"
  by (simp add: run_judgement_def split: judge_outcome.splits)

theorem judge_failure_absorbed_witness:
  "map_option verdict
     (RACE_STATES (run_steps (sample_race @ [Judge_done 0 (Raised ''timeout'')]) init_sys) ''r1'')
     = Some (Some \<lparr>winner = ''tie'', reasoning = JStr ''Judging failed: timeout'',
                    agent_score = 0, human_score = 0\<rparr>)
   \<and> map_option status
     (RACE_STATES (run_steps (sample_race @ [Judge_done 0 (Raised ''timeout'')]) init_sys) ''r1'')
     = Some Completed
   \<and> map_option finalizing
     (RACE_STATES (run_steps (sample_race @ [Judge_done 0 (Raised ''timeout'')]) init_sys) ''r1'')
     = Some False"
  using judge_failure_absorbed [of "''timeout''"]
  by (simp add: sample_defs op_defs finished_state_def)

text \<open>
  C6. Registering a run on a race that already has a run bound raises the conflict error
  and leaves the whole module state as it was: the race (its bound run, its status, both
  participants) and the run-to-race index.
\<close>

theorem second_registration_conflict:
  assumes "RACE_STATES s rid = Some race" and "agent_run_id race \<noteq> None"
  shows "register_agent_run rid run now s =
           (Inl (RuntimeError (''Agent run already registered for race '' @ rid)), s)"
  using assms by (simp add: register_agent_run_def get_race_def)

theorem second_registration_conflict_witness:
  "map_option agent_run_id (RACE_STATES (run_steps sample_race init_sys) ''r1'') = Some (Some ''a1'')
   \<and> register_agent_run ''r1'' ''a2'' 130 (run_steps sample_race init_sys) =
       (Inl (RuntimeError ''Agent run already registered for race r1''),
        run_steps sample_race init_sys)
   \<and> RUN_TO_RACE (snd (register_agent_run ''r1'' ''a2'' 130 (run_steps sample_race init_sys))) ''a2''
       = None"
proof -
  obtain race where r: "RACE_STATES (run_steps sample_race init_sys) ''r1'' = Some race"
    and a: "agent_run_id race = Some ''a1''"
    by (simp add: sample_defs op_defs)
  from a have "agent_run_id race \<noteq> None" by simp
  from second_registration_conflict [OF r this, of "''a2''" 130] r a show ?thesis
    by (simp add: sample_defs op_defs)
qed

text \<open>
  C7. An event for a run that is not in the run-to-race index is dropped: \<open>handle_run_event\<close>
  returns without an error and the module state (every race, the registry, the index, the
  judgement tasks) is the one it was called in.
\<close>

theorem unknown_run_event_dropped:
  assumes "RUN_TO_RACE s run = None"
  shows "handle_run_event run ev now s = (Inr (), s)"
  using assms by (simp add: handle_run_event_def)

theorem unknown_run_event_dropped_witness:
  "RUN_TO_RACE (run_steps sample_race init_sys) ''a1'' = None
   \<and> handle_run_event ''a1'' (ev_result ''late'') 140 (run_steps sample_race init_sys)
       = (Inr (), run_steps sample_race init_sys)"
proof -
  have n: "RUN_TO_RACE (run_steps sample_race init_sys) ''a1'' = None"
    by (simp add: sample_defs op_defs)
  from unknown_run_event_dropped [OF n] n show ?thesis by simp
qed

text \<open>
  C8. Take a run created beside any reachable state of the race manager, and let any
  activity happen to it (events put on the queue, dispatch iterations, clients subscribing
  or unsubscribing, cancellation, steps of the race manager). The replay buffer followed
  by the queue is then the sequence of the events the run has emitted, in emission order,
  so the buffer is the prefix of it that has been dispatched. A listener obtained from
  \<open>subscribe\<close> at that moment holds exactly this buffer. After any further activity in
  which this listener is not unsubscribed, the listener holds the replay buffer of that
  later moment: the buffer it was given, followed by the events dispatched since, which
  together are again a prefix of all the events emitted, in emission order. And each
  further dispatch iteration that finds an event on the queue puts that event, the next
  emitted one, at the end of the listener and of the buffer: no event is missed or
  reordered.
\<close>

theorem late_subscriber_replay:
  assumes "schedule init_sys tr"
    and "run_schedule (new_run run t race, run_steps tr init_sys) ops"
    and "x = run_ops ops (new_run run t race, run_steps tr init_sys)"
    and "l = fst (subscribe (fst x))"
    and "run_schedule (snd (subscribe (fst x)), snd x) ops'"
    and "Unsubscribe l \<notin> set ops'"
    and "x' = run_ops ops' (snd (subscribe (fst x)), snd x)"
  shows "buffer (fst x) @ queue (fst x) = emitted ops
     \<and> listener_queues (snd (subscribe (fst x))) ! l = buffer (fst x)
     \<and> listener_queues (fst x') ! l = buffer (fst x')
     \<and> (\<exists>live. buffer (fst x') = buffer (fst x) @ live)
     \<and> buffer (fst x') @ queue (fst x') = emitted (ops @ ops')
     \<and> (\<forall>now ev q. 0 < now \<and> \<not> dispatch_done (fst x') \<and> queue (fst x') = ev # q \<longrightarrow>
           listener_queues (fst (dispatch_one now x')) ! l = listener_queues (fst x') ! l @ [ev]
           \<and> buffer (fst (dispatch_one now x')) = buffer (fst x') @ [ev]
           \<and> queue (fst (dispatch_one now x')) = q)"
proof -
  let ?x0 = "(new_run run t race, run_steps tr init_sys)"
  let ?y = "(snd (subscribe (fst x)), snd x)"
  from assms(1) have "sys_inv (snd ?x0)" by (simp add: sys_inv_reachable)
  from stream_ops [OF this assms(2)] assms(3)
  have inv: "sys_inv (snd x)" and em: "buffer (fst x) @ queue (fst x) = emitted ops"
    by (simp_all add: new_run_def)
  have sub: "buffer (fst ?y) = buffer (fst x)" "queue (fst ?y) = queue (fst x)"
    by (simp_all add: subscribe_def Let_def)
  have first: "listener_queues (snd (subscribe (fst x))) ! l = buffer (fst x)"
    by (simp add: assms(4) subscribe_def Let_def)
  from inv have "sys_inv (snd ?y)" by simp
  from stream_ops [OF this assms(5)] assms(7) sub em
  have inv': "sys_inv (snd x')"
    and em': "buffer (fst x') @ queue (fst x') = emitted (ops @ ops')"
    by (simp_all add: emitted_append)
  have "replayed l (fst ?y)" by (simp add: assms(4) replayed_subscribe)
  from replayed_ops [OF this assms(6)] assms(7) sub
  obtain live where rep: "replayed l (fst x')"
    and live: "buffer (fst x') = buffer (fst x) @ live"
    by auto
  from rep have lq: "listener_queues (fst x') ! l = buffer (fst x')"
    and len: "l < length (listener_queues (fst x'))"
    and mem: "l \<in> listeners (fst x') \<or> dispatch_done (fst x')"
    by (simp_all add: replayed_def)
  have next_one: "listener_queues (fst (dispatch_one now x')) ! l
                    = listener_queues (fst x') ! l @ [ev]
           \<and> buffer (fst (dispatch_one now x')) = buffer (fst x') @ [ev]
           \<and> queue (fst (dispatch_one now x')) = q"
    if "\<not> dispatch_done (fst x')" and "queue (fst x') = ev # q" for now :: real and ev q
  proof -
    from dispatch_one_delivers [OF inv' that, of now]
    have d: "fst (dispatch_one now x') =
           (fst x')\<lparr>queue := q, buffer := buffer (fst x') @ [ev],
              dispatch_done := (ev ''type'' = Some ''complete''),
              listener_queues := put_all (listeners (fst x')) ev (listener_queues (fst x'))\<rparr>"
      by simp
    from mem that(1) have "l \<in> listeners (fst x')" by simp
    with len show ?thesis by (simp add: d put_all_nth)
  qed
  from em first lq live em' next_one show ?thesis by blast
qed

theorem late_subscriber_replay_witness:
  "schedule init_sys []
   \<and> run_schedule (new_run ''a1'' ''the task'' None, run_steps [] init_sys)
        [Put (ev_status ''starting''), Put (ev_status ''running''), Put (ev_result ''x''),
         Dispatch 1, Dispatch 2, Dispatch 3]
   \<and> run_schedule (snd (subscribe (fst sample_run)), snd sample_run)
        [Put ev_complete, Subscribe, Dispatch 4]
   \<and> Unsubscribe (fst (subscribe (fst sample_run))) \<notin> set [Put ev_complete, Subscribe, Dispatch 4]
   \<and> buffer (fst sample_run) = [ev_status ''starting'', ev_status ''running'', ev_result ''x'']
   \<and> listener_queues (snd (subscribe (fst sample_run))) ! fst (subscribe (fst sample_run))
       = [ev_status ''starting'', ev_status ''running'', ev_result ''x'']
   \<and> listener_queues
        (fst (run_ops [Put ev_complete, Subscribe, Dispatch 4]
               (snd (subscribe (fst sample_run)), snd sample_run)))
        ! fst (subscribe (fst sample_run))
       = [ev_status ''starting'', ev_status ''running'', ev_result ''x'', ev_complete]"
proof -
  have st: "(ev_status x) ''type'' = Some ''status''" for x by (simp add: ev_status_def)
  have rt: "(ev_result x) ''type'' = Some ''result''" for x by (simp add: ev_result_def)
  have ct: "ev_complete ''type'' = Some ''complete''" by (simp add: ev_complete_def)
  have a: "schedule init_sys []" by simp
  have b: "run_schedule (new_run ''a1'' ''the task'' None, run_steps [] init_sys)
        [Put (ev_status ''starting''), Put (ev_status ''running''), Put (ev_result ''x''),
         Dispatch 1, Dispatch 2, Dispatch 3]"
    by (simp add: new_run_def dispatch_one_def st rt Let_def)
  have x: "sample_run = run_ops
        [Put (ev_status ''starting''), Put (ev_status ''running''), Put (ev_result ''x''),
         Dispatch 1, Dispatch 2, Dispatch 3]
        (new_run ''a1'' ''the task'' None, run_steps [] init_sys)"
    by (simp add: sample_run_def)
  have c: "run_schedule (snd (subscribe (fst sample_run)), snd sample_run)
        [Put ev_complete, Subscribe, Dispatch 4]"
    by (simp add: sample_run_def new_run_def dispatch_one_def subscribe_def st rt Let_def)
  have u: "Unsubscribe (fst (subscribe (fst sample_run))) \<notin> set [Put ev_complete, Subscribe, Dispatch 4]"
    by simp
  from late_subscriber_replay [OF a b x refl c u refl] a b c u show ?thesis
    by (simp add: sample_run_def new_run_def dispatch_one_def subscribe_def put_all_def
          st rt ct Let_def upt_rec)
qed

text \<open>
  C9. For a judge response with the four required keys: when both scores convert to a
  float, a verdict is returned whatever the winner value is, and its winner is the
  lowercased value if that is agent, human or tie, and tie otherwise; when the conversion
  of \<open>agent_score\<close> or of \<open>human_score\<close> raises, no verdict is returned and \<open>judge_race\<close>
  raises.
\<close>

theorem judge_answer_normalized:
  assumes "v ''winner'' = Some w" and "v ''reasoning'' = Some rs"
    and "v ''agent_score'' = Some a" and "v ''human_score'' = Some h"
  shows "(\<forall>x y. to_float a = Inr x \<and> to_float h = Inr y \<longrightarrow>
            normalize_verdict render to_float v =
              Inr \<lparr>winner = (if lower (str_of render w) \<in> {''agent'', ''human'', ''tie''}
                              then lower (str_of render w) else ''tie''),
                   reasoning = rs, agent_score = x, human_score = y\<rparr>)
     \<and> ((\<exists>e. to_float a = Inl e) \<or> (\<exists>e. to_float h = Inl e) \<longrightarrow>
            (\<exists>e. normalize_verdict render to_float v = Inl e))"
  using assms
  by (auto simp add: normalize_verdict_def normalize_winner_def score_def Let_def
        split: sum.splits)

theorem judge_answer_normalized_witness:
  "normalize_verdict sample_render sample_float
      [''winner'' \<mapsto> JStr ''Robot'', ''reasoning'' \<mapsto> JStr ''close'',
       ''agent_score'' \<mapsto> JInt 7, ''human_score'' \<mapsto> JFloat 6.5]
     = Inr \<lparr>winner = ''tie'', reasoning = JStr ''close'', agent_score = 7, human_score = 6.5\<rparr>
   \<and> normalize_verdict sample_render sample_float
      [''winner'' \<mapsto> JStr ''HUMAN'', ''reasoning'' \<mapsto> JStr ''close'',
       ''agent_score'' \<mapsto> JInt 7, ''human_score'' \<mapsto> JStr ''high'']
     = Inl (Judge_not_numeric ''human_score'' (JStr ''high''))"
  using
    judge_answer_normalized [of "[''winner'' \<mapsto> JStr ''Robot'', ''reasoning'' \<mapsto> JStr ''close'',
       ''agent_score'' \<mapsto> JInt 7, ''human_score'' \<mapsto> JFloat 6.5]"
       "JStr ''Robot''" "JStr ''close''" "JInt 7" "JFloat 6.5" sample_float sample_render]
    judge_answer_normalized [of "[''winner'' \<mapsto> JStr ''HUMAN'', ''reasoning'' \<mapsto> JStr ''close'',
       ''agent_score'' \<mapsto> JInt 7, ''human_score'' \<mapsto> JStr ''high'']"
       "JStr ''HUMAN''" "JStr ''close''" "JInt 7" "JStr ''high''" sample_float sample_render]
  by (simp add: normalize_verdict_def normalize_winner_def score_def lower_def lower_char_def
        str_of_def)

text \<open>
  C10 (as the code has it). In every reachable state, a submission for a race whose human
  is already completed replaces the stored submission (and, for a \<open>text_entry\<close> task, the
  human's result) by the new text and leaves the human's status, timestamps and duration,
  the agent, the race status and the verdict as they were. It triggers a judgement exactly
  when the race has no verdict, is not \<open>finalizing\<close> and the agent is ready; in a reachable
  state that is the case only when the race is at \<open>judging\<close> and a judgement task of the
  race has ended without storing a verdict. The submission then sets \<open>finalizing\<close> and
  creates one judgement task; otherwise \<open>finalizing\<close> and the judgement tasks are as
  before.
\<close>

theorem resubmission_changes_only_text:
  assumes "schedule init_sys tr"
    and "RACE_STATES (run_steps tr init_sys) rid = Some race"
    and "pstatus (human race) = ''completed''"
    and "retry = (verdict race = None \<and> \<not> finalizing race \<and> agent_ready race)"
    and "race' = race\<lparr>human := (human race)\<lparr>result :=
                            (if task_type (task race) = ''text_entry''
                             then Some (or_empty sub) else result (human race))\<rparr>,
                        human_submission := Some (or_empty sub),
                        finalizing := (finalizing race \<or> retry)\<rparr>"
  shows "record_human_submission rid sub t1 t2 (run_steps tr init_sys) =
           (Inr race',
            (run_steps tr init_sys)\<lparr>RACE_STATES := (RACE_STATES (run_steps tr init_sys))
                 (rid \<mapsto> race'),
               judge_tasks :=
                 (if retry
                  then judge_tasks (run_steps tr init_sys)
                         @ [\<lparr>task_race = rid, task_state = Task_pending\<rparr>]
                  else judge_tasks (run_steps tr init_sys))\<rparr>)
     \<and> (retry \<longrightarrow> status race = Judging
                   \<and> 1 \<le> aborted_tasks (run_steps tr init_sys) rid
                   \<and> pending_tasks (run_steps tr init_sys) rid = 0
                   \<and> verdict_stores (run_steps tr init_sys) rid = 0)"
proof -
  let ?s = "run_steps tr init_sys"
  let ?race0 = "race\<lparr>human := (human race)\<lparr>result :=
                            (if task_type (task race) = ''text_entry''
                             then Some (or_empty sub) else result (human race))\<rparr>,
                        human_submission := Some (or_empty sub)\<rparr>"
  note r = assms(2) and comp = assms(3)
  from assms(1) have inv: "sys_inv ?s" by (rule sys_inv_reachable)
  from sys_inv_race [OF inv r] have th: "times_ok (human race)" and ho: "human_ok race"
    and trg: "triggered race"
    by (simp_all add: race_inv_def race_pre_def)
  note jo = sys_inv_judging [OF inv r]
  from ho comp obtain c where c: "completed_at (human race) = Some c"
    and hs: "human_submission race \<noteq> None"
    by (auto simp add: human_ok_def)
  with th obtain st where st: "started_at (human race) = Some st" "st \<noteq> 0" "c \<noteq> 0"
    "duration_seconds (human race) = Some (c - st)"
    by (auto simp add: times_ok_def split: option.splits)
  from comp c st have eff: "submit_effect sub t1 t2 race = ?race0"
    by (simp add: submit_effect_def or_time_def Let_def)
  from hs comp have hr: "human_ready ?race0" "human_ready race"
    by (auto simp add: human_ready_def)
  have ar: "agent_ready ?race0 = agent_ready race" by (simp add: agent_ready_def)
  have judging: "status race = Judging" and ab: "1 \<le> aborted_tasks ?s rid" if "retry"
  proof -
    from that assms(4) have v: "verdict race = None" "\<not> finalizing race" "agent_ready race"
      by simp_all
    with trg hr(2) show "status race = Judging" by (simp add: triggered_def)
    with jo v show "1 \<le> aborted_tasks ?s rid" by (simp add: judging_ok_def)
  qed
  have counts: "pending_tasks ?s rid = 0 \<and> verdict_stores ?s rid = 0" if "retry"
    using that assms(4) by (simp add: counts_of_race [OF inv r])
  have mf: "maybe_finalize ?race0 = (race', retry)"
  proof (cases retry)
    case True
    with assms(4) have v: "verdict race = None" "\<not> finalizing race" "agent_ready race"
      by simp_all
    have "?race0\<lparr>finalizing := True, status := Judging\<rparr> = race'"
      by (rule RaceState.equality) (simp_all add: assms(5) True judging [OF True])
    with v hr ar True show ?thesis by (simp add: maybe_finalize_eq)
  next
    case False
    with assms(4) have "\<not> (verdict race = None \<and> \<not> finalizing race \<and> agent_ready race)"
      by simp
    moreover from False have "race' = ?race0" by (simp add: assms(5))
    ultimately show ?thesis using ar False by (auto simp add: maybe_finalize_eq)
  qed
  from r eff mf have "record_human_submission rid sub t1 t2 ?s =
           (Inr race',
            ?s\<lparr>RACE_STATES := (RACE_STATES ?s)(rid \<mapsto> race'),
               judge_tasks := (if retry
                  then judge_tasks ?s @ [\<lparr>task_race = rid, task_state = Task_pending\<rparr>]
                  else judge_tasks ?s)\<rparr>)"
    by (simp add: record_human_submission_def get_race_def spawn_def)
  with judging ab counts show ?thesis by blast
qed

theorem resubmission_changes_only_text_witness:
  "schedule init_sys sample_judged
   \<and> map_option (pstatus \<circ> human) (RACE_STATES (run_steps sample_judged init_sys) ''r1'')
       = Some ''completed''
   \<and> judge_tasks (snd (record_human_submission ''r1'' (Some ''Other'') 200 201
        (run_steps sample_judged init_sys))) = judge_tasks (run_steps sample_judged init_sys)
   \<and> map_option (\<lambda>r. (human_submission r, result (human r), completed_at (human r),
                       duration_seconds (human r), status r, verdict r))
       (RACE_STATES (snd (record_human_submission ''r1'' (Some ''Other'') 200 201
          (run_steps sample_judged init_sys))) ''r1'')
       = Some (Some ''Other'', Some ''Other'', Some 112, Some 10, Completed, Some sample_verdict)"
proof -
  have a: "schedule init_sys sample_judged" by (simp add: sample_defs op_defs)
  have r: "RACE_STATES (run_steps sample_judged init_sys) ''r1''
             = Some (the (RACE_STATES (run_steps sample_judged init_sys) ''r1''))"
    by (simp add: sample_defs op_defs finished_state_def)
  have h: "pstatus (human (the (RACE_STATES (run_steps sample_judged init_sys) ''r1'')))
             = ''completed''"
    by (simp add: sample_defs op_defs finished_state_def)
  from resubmission_changes_only_text [OF a r h refl refl, of "Some ''Other''" 200 201] a
  show ?thesis
    by (simp add: sample_defs op_defs finished_state_def)
qed

text \<open>
  C10 as stated fails: a repeated submission can trigger a second judgement. When the
  judgement task of a race is cancelled at its \<open>await\<close>, \<open>finally\<close> clears \<open>finalizing\<close>
  and no verdict is stored; the human is completed and both sides are ready, so the next
  submission passes the guard of \<open>_maybe_finalize\<close>, sets \<open>finalizing\<close> and creates a
  second judgement task.
\<close>

theorem resubmission_after_cancel_rejudges:
  "schedule init_sys sample_cancelled
   \<and> map_option (pstatus \<circ> human) (RACE_STATES (run_steps sample_cancelled init_sys) ''r1'')
       = Some ''completed''
   \<and> map_option (\<lambda>r. (status r, verdict r, finalizing r))
       (RACE_STATES (run_steps sample_cancelled init_sys) ''r1'') = Some (Judging, None, False)
   \<and> judge_tasks (run_steps sample_cancelled init_sys)
       = [\<lparr>task_race = ''r1'', task_state = Task_aborted\<rparr>]
   \<and> judge_tasks (snd (record_human_submission ''r1'' (Some ''Other'') 200 201
        (run_steps sample_cancelled init_sys)))
       = [\<lparr>task_race = ''r1'', task_state = Task_aborted\<rparr>,
          \<lparr>task_race = ''r1'', task_state = Task_pending\<rparr>]
   \<and> map_option (\<lambda>r. (status r, verdict r, finalizing r))
       (RACE_STATES (snd (record_human_submission ''r1'' (Some ''Other'') 200 201
          (run_steps sample_cancelled init_sys))) ''r1'') = Some (Judging, None, True)"
  by (simp add: sample_defs sample_cancelled_def op_defs finished_state_def)

end
